theory Spec2Isabelle
  imports Main "HOL-Library.Sublist" "HOL-Library.Char_ord" "HOL-Library.List_Lexorder"
begin

section \<open>Byte strings of Python 2\<close>

text \<open>
  The program is Python 2: a \<open>str\<close> is a sequence of bytes, modelled by \<^typ>\<open>string\<close>
  (\<^typ>\<open>char\<close> is a byte). \<open>str.strip\<close>, \<open>str.lower\<close>, \<open>str.capitalize\<close> and the
  class \<open>\s\<close> of \<open>re\<close> work on ASCII in the default C locale.
\<close>

text \<open>The six whitespace bytes of \<open>\s\<close> and of \<open>strip\<close>: space, TAB, LF, VT, FF, CR.\<close>

definition isspace :: "char \<Rightarrow> bool" where
  "isspace c = (c = CHR '' '' \<or> c = CHR 0x09 \<or> c = CHR 0x0A \<or> c = CHR 0x0B
                \<or> c = CHR 0x0C \<or> c = CHR 0x0D)"

definition lower_char :: "char \<Rightarrow> char" where
  "lower_char c = (let n = (of_char c :: nat) in
                   if 65 \<le> n \<and> n \<le> 90 then char_of (n + 32) else c)"

definition upper_char :: "char \<Rightarrow> char" where
  "upper_char c = (let n = (of_char c :: nat) in
                   if 97 \<le> n \<and> n \<le> 122 then char_of (n - 32) else c)"

definition str_lower :: "string \<Rightarrow> string" where
  "str_lower s = map lower_char s"

text \<open>\<open>s.capitalize()\<close>: first byte upper-cased, the rest lower-cased.\<close>

definition str_capitalize :: "string \<Rightarrow> string" where
  "str_capitalize s = (case s of [] \<Rightarrow> [] | c # cs \<Rightarrow> upper_char c # map lower_char cs)"

definition str_lstrip :: "string \<Rightarrow> string" where
  "str_lstrip s = dropWhile isspace s"

definition str_rstrip :: "string \<Rightarrow> string" where
  "str_rstrip s = rev (dropWhile isspace (rev s))"

definition str_strip :: "string \<Rightarrow> string" where
  "str_strip s = str_rstrip (str_lstrip s)"

text \<open>\<open>s.find(sub)\<close>: the lowest index at which \<open>sub\<close> occurs in \<open>s\<close>, or \<open>-1\<close>.\<close>

fun str_find :: "string \<Rightarrow> string \<Rightarrow> int" where
  "str_find [] sub = (if sub = [] then 0 else - 1)"
| "str_find (c # cs) sub =
     (if prefix sub (c # cs) then 0
      else (let r = str_find cs sub in if r = - 1 then - 1 else r + 1))"

text \<open>\<open>sep.join(xs)\<close>.\<close>

fun str_join :: "string \<Rightarrow> string list \<Rightarrow> string" where
  "str_join sep [] = []"
| "str_join sep [x] = x"
| "str_join sep (x # y # ys) = x @ sep @ str_join sep (y # ys)"

text \<open>\<open>re.sub("\s+", " ", s)\<close>: every maximal run of whitespace becomes one space.\<close>

function re_sub_spaces :: "string \<Rightarrow> string" where
  "re_sub_spaces [] = []"
| "re_sub_spaces (c # cs) =
     (if isspace c then CHR '' '' # re_sub_spaces (dropWhile isspace cs)
      else c # re_sub_spaces cs)"
  by pat_completeness auto
termination
  by (relation "measure length") (auto simp: le_imp_less_Suc length_dropWhile_le)

text \<open>
  \<open>re.split(",\s*", s)\<close>: the pieces of \<open>s\<close> between the matches of a comma followed
  by the longest run of whitespace.
\<close>

function re_split_commas :: "string \<Rightarrow> string list" where
  "re_split_commas s =
     (case dropWhile (\<lambda>c. c \<noteq> CHR '','') s of
        [] \<Rightarrow> [s]
      | _ # r \<Rightarrow> takeWhile (\<lambda>c. c \<noteq> CHR '','') s # re_split_commas (dropWhile isspace r))"
  by pat_completeness auto
termination
proof (relation "measure length", goal_cases)
  case 1
  show ?case by simp
next
  case (2 s x r)
  have "length (dropWhile isspace r) \<le> length r"
    by (rule length_dropWhile_le)
  moreover have "length (dropWhile (\<lambda>c. c \<noteq> CHR '','') s) \<le> length s"
    by (rule length_dropWhile_le)
  moreover have "length (dropWhile (\<lambda>c. c \<noteq> CHR '','') s) = Suc (length r)"
    using 2 by (metis length_Cons)
  ultimately show ?case by simp
qed

section \<open>Exceptions\<close>

text \<open>
  Every \<open>raise\<close> of the source and every exception a library call of the source can
  raise is a value: a function that can raise returns \<open>exn + 'a\<close>.
\<close>

datatype exn = ValueError string | TypeError | IndexError | AssertionError string
  | RuntimeError

section \<open>The stack of the interpreter\<close>

text \<open>
  The scanner skips a line by calling itself, so the depth of the stack grows with the
  number of lines skipped in a row. The interpreter raises \<open>RuntimeError\<close> (maximum
  recursion depth exceeded) on the call that would make the stack deeper than
  \<open>sys.getrecursionlimit()\<close>, which is 1000 unless \<open>sys.setrecursionlimit\<close> is called; the
  program never calls it.
\<close>

definition recursion_limit :: nat where
  "recursion_limit = 1000"

text \<open>
  Every function and method of the scanner takes as its first argument \<open>d\<close> the number
  of frames that the stack can still take. A call of a function or method of the source
  takes one frame: it raises when none is left, and its body runs with one frame less.
  The frames counted are those of the functions and methods of the source; the calls
  of builtins and of the library (\<open>readline\<close>, the methods of \<open>str\<close>, \<open>re\<close>)
  are counted as taking none.
\<close>

definition frame :: "nat \<Rightarrow> (nat \<Rightarrow> exn + 'a) \<Rightarrow> exn + 'a" where
  "frame d body = (if d = 0 then Inl RuntimeError else body (d - 1))"

section \<open>Module-level helpers\<close>

definition normalise_text :: "string \<Rightarrow> string" where
  "normalise_text s = re_sub_spaces (str_strip s)"

text \<open>The generator of \<open>split_on_commas\<close> is consumed once, in order: a list.\<close>

definition split_on_commas :: "string \<Rightarrow> string list" where
  "split_on_commas s = map normalise_text (filter (\<lambda>t. t \<noteq> []) (re_split_commas s))"

definition tail_after :: "string \<Rightarrow> string \<Rightarrow> exn + string" where
  "tail_after s head =
     (let hl = length head; sl = length s in
      if sl < hl then Inl (ValueError ''HEAD longer than STRING.'')
      else Inr (drop hl s))"

section \<open>The class \<open>Comment\<close>\<close>

text \<open>
  The field \<open>current\<close> holds a string or Python's \<open>None\<close>; the other fields are strings.
\<close>

record Comment =
  c_lineNo :: int
  c_current :: "string option"
  c_error :: string
  c_warning :: string
  c_heading :: string
  c_keywords :: string

definition Comment_init :: "int \<Rightarrow> string option \<Rightarrow> Comment" where
  "Comment_init n s =
     \<lparr>c_lineNo = n, c_current = s, c_error = [], c_warning = [],
      c_heading = [], c_keywords = []\<rparr>"

definition updateWarningOrError :: "Comment \<Rightarrow> string \<Rightarrow> string \<Rightarrow> exn + Comment" where
  "updateWarningOrError self fieldName message =
     (if fieldName = ''__error'' then Inr (self\<lparr>c_error := message\<rparr>)
      else if fieldName = ''__warning'' then Inr (self\<lparr>c_warning := message\<rparr>)
      else Inl (ValueError (''Unknown field name: '' @ [CHR 0x27] @ fieldName @ [CHR 0x27])))"

definition addError :: "Comment \<Rightarrow> string \<Rightarrow> exn + Comment" where
  "addError self message = updateWarningOrError self ''__error'' message"

definition addWarning :: "Comment \<Rightarrow> string \<Rightarrow> exn + Comment" where
  "addWarning self message = updateWarningOrError self ''__warning'' message"

definition setCurrent :: "Comment \<Rightarrow> string option \<Rightarrow> Comment" where
  "setCurrent self v = self\<lparr>c_current := v\<rparr>"

definition setHeading :: "Comment \<Rightarrow> string \<Rightarrow> Comment" where
  "setHeading self h = self\<lparr>c_heading := h\<rparr>"

definition setKeywords :: "Comment \<Rightarrow> string \<Rightarrow> Comment" where
  "setKeywords self k = self\<lparr>c_keywords := k\<rparr>"

section \<open>The comment patterns\<close>

text \<open>
  Each compiled pattern of the source is a function from the subject string to the text
  it matches at the start of the string (\<open>group()\<close>), with \<open>None\<close> for no match. The
  patterns have no choice point that backtracking could revisit: every \<open>\s*\<close> is followed
  by a byte that is no whitespace or ends the pattern.
\<close>

text \<open>
  The group \<open>(#+|/\*|//|--|\(\*|;+)\<close> of \<open>is_comment\<close>, at the start of \<open>r\<close>.
\<close>

definition opening_mark :: "string \<Rightarrow> string option" where
  "opening_mark r =
     (if take 1 r = ''#'' then Some (takeWhile (\<lambda>c. c = CHR ''#'') r)
      else if take 2 r = ''/*'' then Some ''/*''
      else if take 2 r = ''//'' then Some ''//''
      else if take 2 r = ''--'' then Some ''--''
      else if take 2 r = ''(*'' then Some ''(*''
      else if take 1 r = '';'' then Some (takeWhile (\<lambda>c. c = CHR '';'') r)
      else None)"

text \<open>
  \<open>is_comment = re.compile("^\s*(#+|/\*|//|--|\(\*|;+)\s*").match\<close>: the result is the pair
  of \<open>group()\<close> and \<open>group(1)\<close>.
\<close>

definition is_comment :: "string \<Rightarrow> (string \<times> string) option" where
  "is_comment line =
     (let ws = takeWhile isspace line; r = dropWhile isspace line in
      case opening_mark r of
        None \<Rightarrow> None
      | Some m \<Rightarrow> Some (ws @ m @ takeWhile isspace (drop (length m) r), m))"

text \<open>
  The matchers that \<open>secondary_comment_matcher\<close> returns:
  \<open>"^\s*MARK\s*"\<close> (the text of \<open>single_char_comment_mark_regex\<close> after \<open>^\<close>), \<open>"^\s*(/\*|\*+)\s*"\<close> and \<open>"^\s*(\(\*|\*+)\s*"\<close>. The mark is spliced
  into the first pattern as it is; the marks that \<open>is_comment\<close> captures (\<open>#\<close>s, \<open>;\<close>s,
  \<open>--\<close>, \<open>//\<close>) hold no operator of \<open>re\<close>, so the pattern matches the mark literally.
\<close>

datatype matcher = Single_mark string | Slash_star | Paren_star

definition block_mark :: "string \<Rightarrow> string \<Rightarrow> string option" where
  "block_mark opener r =
     (if take 2 r = opener then Some opener
      else if take 1 r = ''*'' then Some (takeWhile (\<lambda>c. c = CHR ''*'') r)
      else None)"

definition run_matcher :: "matcher \<Rightarrow> string \<Rightarrow> string option" where
  "run_matcher m line =
     (let ws = takeWhile isspace line; r = dropWhile isspace line in
      case (case m of
              Single_mark mark \<Rightarrow> (if prefix mark r then Some mark else None)
            | Slash_star \<Rightarrow> block_mark ''/*'' r
            | Paren_star \<Rightarrow> block_mark ''(*'' r) of
        None \<Rightarrow> None
      | Some k \<Rightarrow> Some (ws @ k @ takeWhile isspace (drop (length k) r)))"

text \<open>
  \<open>initial_comment_mark[0]\<close> raises \<open>IndexError\<close> on the empty string; a mark of no
  known family falls off the end of the function, which returns \<open>None\<close>. The first
  branch calls \<open>single_char_comment_mark_regex\<close>, which takes a frame of its own.
\<close>

definition secondary_comment_matcher :: "nat \<Rightarrow> string \<Rightarrow> exn + matcher option" where
  "secondary_comment_matcher d initial_comment_mark =
     frame d (\<lambda>d1.
       case initial_comment_mark of
         [] \<Rightarrow> Inl IndexError
       | c # _ \<Rightarrow>
           if c = CHR ''#'' \<or> c = CHR '';'' \<or> take 2 initial_comment_mark = ''--''
              \<or> take 2 initial_comment_mark = ''//''
           then frame d1 (\<lambda>d2. Inr (Some (Single_mark initial_comment_mark)))
           else if take 2 initial_comment_mark = ''/*'' then Inr (Some Slash_star)
           else if take 2 initial_comment_mark = ''(*'' then Inr (Some Paren_star)
           else Inr None)"

text \<open>
  The border patterns of \<open>define_comment_border_regex\<close>:
  \<open>"\s*MARK\s*$"\<close>, \<open>"\s*\*+/?\s*$"\<close> and \<open>"\s*\*+\)?\s*$"\<close>.
\<close>

datatype border = Border_single string | Border_slash_star | Border_paren_star

definition define_comment_border_regex :: "nat \<Rightarrow> string \<Rightarrow> exn + border option" where
  "define_comment_border_regex d initial_comment_mark =
     frame d (\<lambda>d1.
       case initial_comment_mark of
         [] \<Rightarrow> Inl IndexError
       | c # _ \<Rightarrow>
           if c = CHR ''#'' \<or> c = CHR '';'' \<or> take 2 initial_comment_mark = ''--''
              \<or> take 2 initial_comment_mark = ''//''
           then frame d1 (\<lambda>d2. Inr (Some (Border_single initial_comment_mark)))
           else if take 2 initial_comment_mark = ''/*'' then Inr (Some Border_slash_star)
           else if take 2 initial_comment_mark = ''(*'' then Inr (Some Border_paren_star)
           else Inr None)"

text \<open>
  Whether a border pattern matches the whole of \<open>s\<close>, from its first byte to the end of
  the string that \<open>$\<close> asks for.
\<close>

definition stars_then :: "char \<Rightarrow> string \<Rightarrow> bool" where
  "stars_then closer r =
     (take 1 r = ''*'' \<and>
      (let r1 = dropWhile (\<lambda>c. c = CHR ''*'') r;
           r2 = (if take 1 r1 = [closer] then drop 1 r1 else r1)
       in list_all isspace r2))"

definition border_matches :: "border \<Rightarrow> string \<Rightarrow> bool" where
  "border_matches b s =
     (let r = dropWhile isspace s in
      case b of
        Border_single mark \<Rightarrow> prefix mark r \<and> list_all isspace (drop (length mark) r)
      | Border_slash_star \<Rightarrow> stars_then CHR ''/'' r
      | Border_paren_star \<Rightarrow> stars_then CHR '')'' r)"

text \<open>
  \<open>re.sub(border, "", text)\<close>: the leftmost match is removed. A border pattern ends in
  \<open>$\<close> and matches no empty string, so the match runs from the first position whose
  remainder the pattern matches to the end, and there is no second match.
\<close>

fun re_sub_border :: "border \<Rightarrow> string \<Rightarrow> string" where
  "re_sub_border b [] = []"
| "re_sub_border b (c # cs) =
     (if border_matches b (c # cs) then [] else c # re_sub_border b cs)"

section \<open>The class \<open>ProcessLine\<close>: the line scanner\<close>

text \<open>
  The file object is the list of the lines that \<open>readline\<close> has still to deliver, each
  as \<open>readline\<close> returns it; at the end of the file \<open>readline\<close> returns the empty string.
  The two compiled patterns held by the scanner are \<open>None\<close> until the first comment line.
\<close>

record ProcessLine =
  file_pointer :: "string list"
  lineNo :: int
  isSecondComment :: "matcher option"
  borderCommentRE :: "border option"

definition ProcessLine_init :: "string list \<Rightarrow> ProcessLine" where
  "ProcessLine_init fp =
     \<lparr>file_pointer = fp, lineNo = 0, isSecondComment = None, borderCommentRE = None\<rparr>"

definition readline :: "string list \<Rightarrow> string \<times> string list" where
  "readline fp = (case fp of [] \<Rightarrow> ([], []) | l # ls \<Rightarrow> (l, ls))"

text \<open>
  \<open>__newComment\<close> takes a frame, and so does \<open>Comment.__init__\<close>, which it calls.
\<close>

definition newComment :: "nat \<Rightarrow> ProcessLine \<Rightarrow> string option \<Rightarrow> exn + Comment" where
  "newComment d self commentText =
     frame d (\<lambda>d1. frame d1 (\<lambda>d2. Inr (Comment_init (lineNo self) commentText)))"

text \<open>
  \<open>__commentText\<close>: the second argument is \<open>group()\<close> of the match, \<open>None\<close> for no match.
  \<open>re.sub\<close> raises \<open>TypeError\<close> when the border pattern is still \<open>None\<close>.
\<close>

definition commentText ::
  "nat \<Rightarrow> ProcessLine \<Rightarrow> string \<Rightarrow> string option \<Rightarrow> exn + string option" where
  "commentText d self line comment_mark_match =
     frame d (\<lambda>d1.
       case comment_mark_match of
         None \<Rightarrow> Inr None
       | Some mark_and_whitespaces \<Rightarrow>
           (case frame d1 (\<lambda>d2. tail_after line mark_and_whitespaces) of
              Inl e \<Rightarrow> Inl e
            | Inr comment_text \<Rightarrow>
                (case borderCommentRE self of
                   None \<Rightarrow> Inl TypeError
                 | Some b \<Rightarrow> Inr (Some (str_strip (re_sub_border b comment_text))))))"

text \<open>
  \<open>__getFirstComment\<close> and \<open>__getComment\<close> end either with a \<open>Comment\<close> or with
  \<open>return self.__call__()\<close>; the second is the value \<open>Call_again\<close> with the number of
  frames left where the call is made, which \<open>__call__\<close> below turns into its recursive
  call.
\<close>

datatype step = Return Comment | Call_again nat

definition getFirstComment ::
  "nat \<Rightarrow> ProcessLine \<Rightarrow> string \<Rightarrow> exn + (step \<times> ProcessLine)" where
  "getFirstComment d self line =
     frame d (\<lambda>d1.
       case is_comment line of
         None \<Rightarrow>
           (case newComment d1 self (Some []) of
              Inl e \<Rightarrow> Inl e
            | Inr c \<Rightarrow> Inr (Return c, self))
       | Some (g, comment_mark) \<Rightarrow>
           if take 3 line = ''#!/'' then Inr (Call_again d1, self)
           else
             (case define_comment_border_regex d1 comment_mark of
                Inl e \<Rightarrow> Inl e
              | Inr b \<Rightarrow>
                  (let self1 = self\<lparr>borderCommentRE := b\<rparr> in
                   case commentText d1 self1 line (Some g) of
                     Inl e \<Rightarrow> Inl e
                   | Inr text \<Rightarrow>
                       if text = Some [] then Inr (Call_again d1, self1)
                       else
                         (case secondary_comment_matcher d1 comment_mark of
                            Inl e \<Rightarrow> Inl e
                          | Inr m \<Rightarrow>
                              (let self2 = self1\<lparr>isSecondComment := m\<rparr> in
                               case newComment d1 self2 text of
                                 Inl e \<Rightarrow> Inl e
                               | Inr c \<Rightarrow> Inr (Return c, self2))))))"

definition getComment ::
  "nat \<Rightarrow> ProcessLine \<Rightarrow> string \<Rightarrow> exn + (step \<times> ProcessLine)" where
  "getComment d self line =
     frame d (\<lambda>d1.
       case isSecondComment self of
         None \<Rightarrow> getFirstComment d1 self line
       | Some m \<Rightarrow>
           (case commentText d1 self line (run_matcher m line) of
              Inl e \<Rightarrow> Inl e
            | Inr text \<Rightarrow>
                if text = Some [] then Inr (Call_again d1, self)
                else if text \<noteq> None then
                  (case newComment d1 self text of
                     Inl e \<Rightarrow> Inl e
                   | Inr c \<Rightarrow> Inr (Return c, self))
                else
                  (case newComment d1 self (Some []) of
                     Inl e \<Rightarrow> Inl e
                   | Inr c \<Rightarrow> Inr (Return c, self))))"

lemma getFirstComment_file_pointer:
  "getFirstComment d self line = Inr (st, self') \<Longrightarrow> file_pointer self' = file_pointer self"
  by (auto simp: getFirstComment_def frame_def Let_def
           split: option.splits sum.splits if_splits prod.splits)

lemma getComment_file_pointer:
  "getComment d self line = Inr (st, self') \<Longrightarrow> file_pointer self' = file_pointer self"
  by (auto simp: getComment_def frame_def split: option.splits sum.splits if_splits
           dest: getFirstComment_file_pointer)

text \<open>
  \<open>ProcessLine.__call__\<close> with \<open>d\<close> frames left: one line is read at every call,
  recursive ones included.
\<close>

function ProcessLine_call :: "nat \<Rightarrow> ProcessLine \<Rightarrow> exn + (Comment \<times> ProcessLine)" where
  "ProcessLine_call d self =
     (if d = 0 then Inl RuntimeError
      else
        (case readline (file_pointer self) of
           (raw, fp) \<Rightarrow>
             (let line = str_rstrip raw;
                  self1 = self\<lparr>file_pointer := fp, lineNo := lineNo self + 1\<rparr>
              in if line = [] then
                   (case newComment (d - 1) self1 (Some []) of
                      Inl e \<Rightarrow> Inl e
                    | Inr c \<Rightarrow> Inr (c, self1))
                 else
                   (case getComment (d - 1) self1 line of
                      Inl e \<Rightarrow> Inl e
                    | Inr (Return c, self2) \<Rightarrow> Inr (c, self2)
                    | Inr (Call_again k, self2) \<Rightarrow> ProcessLine_call k self2))))"
  by pat_completeness auto
termination
proof (relation "measure (\<lambda>(d, self). length (file_pointer self))", goal_cases)
  case 1
  show ?case by simp
next
  case 2
  then show ?case
    by (auto simp: readline_def str_rstrip_def split: list.splits
             dest!: getComment_file_pointer)
qed

declare ProcessLine_call.simps [simp del]

text \<open>
  The call \<open>next_comment()\<close> in \<open>process\<close>: the stack holds the frame of the module and
  the frame of \<open>process\<close>.
\<close>

definition call :: "ProcessLine \<Rightarrow> exn + (Comment \<times> ProcessLine)" where
  "call self = ProcessLine_call (recursion_limit - 2) self"

section \<open>The class \<open>ProcessComment\<close>: the aggregator\<close>

text \<open>
  \<open>is_heading = re.compile(r"^\s*Tutorial\s+", re.I).match\<close> and
  \<open>is_kwords = re.compile("^\s*KWords\s*:", re.I).match\<close>, each returning \<open>group()\<close>.
  Without the flags \<open>re.L\<close> and \<open>re.U\<close>, \<open>re.I\<close> folds the case of ASCII letters only.
\<close>

definition is_heading :: "string \<Rightarrow> string option" where
  "is_heading s =
     (let ws = takeWhile isspace s; r = dropWhile isspace s;
          ws1 = takeWhile isspace (drop 8 r)
      in if str_lower (take 8 r) = ''tutorial'' \<and> ws1 \<noteq> []
         then Some (ws @ take 8 r @ ws1) else None)"

definition is_kwords :: "string \<Rightarrow> string option" where
  "is_kwords s =
     (let ws = takeWhile isspace s; r = dropWhile isspace s;
          ws1 = takeWhile isspace (drop 6 r)
      in if str_lower (take 6 r) = ''kwords'' \<and> take 1 (dropWhile isspace (drop 6 r)) = '':''
         then Some (ws @ take 6 r @ ws1 @ '':'') else None)"

text \<open>\<open>prefix and prefix.group() or None\<close>: an empty \<open>group()\<close> is falsy and gives \<open>None\<close>.\<close>

definition read_heading_prefix :: "string \<Rightarrow> string option" where
  "read_heading_prefix s =
     (case is_heading s of None \<Rightarrow> None | Some g \<Rightarrow> if g \<noteq> [] then Some g else None)"

definition read_kwords_prefix :: "string \<Rightarrow> string option" where
  "read_kwords_prefix s =
     (case is_kwords s of None \<Rightarrow> None | Some g \<Rightarrow> if g \<noteq> [] then Some g else None)"

record ProcessComment =
  heading :: string
  headingLC :: string
  keywordsSet :: "string set"
  keywordsAllowed :: bool

definition ProcessComment_init :: ProcessComment where
  "ProcessComment_init =
     \<lparr>heading = [], headingLC = [], keywordsSet = {}, keywordsAllowed = False\<rparr>"

definition tutorialHeading :: "string \<Rightarrow> string \<Rightarrow> exn + string" where
  "tutorialHeading headingPrefix commentLine =
     (case tail_after commentLine headingPrefix of
        Inl e \<Rightarrow> Inl e
      | Inr t \<Rightarrow>
          Inr (str_capitalize (normalise_text headingPrefix) @ '' '' @ normalise_text t))"

definition tutorialKeywords :: "string \<Rightarrow> string \<Rightarrow> exn + string" where
  "tutorialKeywords keywordsPrefix commentLine =
     (case tail_after commentLine keywordsPrefix of
        Inl e \<Rightarrow> Inl e
      | Inr t \<Rightarrow> Inr (normalise_text t))"

text \<open>
  \<open>", ".join(sorted(values_of_set(s)))\<close>: \<open>values_of_set\<close> lists the set in an order of
  its own, which \<open>sorted\<close> replaces by the order of the byte strings.
\<close>

definition keywordsToString :: "ProcessComment \<Rightarrow> string" where
  "keywordsToString self = str_join '', '' (sorted_list_of_set (keywordsSet self))"

definition storeHeading :: "ProcessComment \<Rightarrow> string \<Rightarrow> ProcessComment" where
  "storeHeading self h =
     (let self1 = self\<lparr>heading := normalise_text h\<rparr>
      in self1\<lparr>headingLC := str_lower (heading self1)\<rparr>)"

definition updateHeading ::
  "ProcessComment \<Rightarrow> string \<Rightarrow> Comment \<Rightarrow> exn + (Comment \<times> ProcessComment)" where
  "updateHeading self newHeading comment =
     (if heading self = [] then Inr (setCurrent comment None, storeHeading self newHeading)
      else
        (let newHeading' = str_lower newHeading in
         if headingLC self = newHeading' then Inr (setCurrent comment None, self)
         else if str_find (headingLC self) newHeading' = 0 then
           (case addWarning (setCurrent comment None)
                   (''will use newly found, shorter heading '' @ [CHR 0x27] @ newHeading
                    @ [CHR 0x27]) of
              Inl e \<Rightarrow> Inl e
            | Inr c \<Rightarrow> Inr (c, storeHeading self newHeading))
         else if str_find newHeading' (headingLC self) = 0 then
           Inr (setCurrent comment None, self)
         else
           (case addError comment
                   (''heading '' @ [CHR 0x27] @ newHeading @ [CHR 0x27]
                    @ '' different from previous files' heading ''
                    @ [CHR 0x27] @ heading self @ [CHR 0x27] @ [CHR 0x0A]) of
              Inl e \<Rightarrow> Inl e
            | Inr c \<Rightarrow> Inr (c, self))))"

definition updateKeywords ::
  "ProcessComment \<Rightarrow> string \<Rightarrow> Comment \<Rightarrow> Comment \<times> ProcessComment" where
  "updateKeywords self keywords comment =
     (setCurrent comment None,
      self\<lparr>keywordsSet := foldl (\<lambda>S kw. insert kw S) (keywordsSet self)
                                (split_on_commas keywords)\<rparr>)"

text \<open>
  \<open>ProcessComment.__call__\<close>. The patterns raise \<open>TypeError\<close> on \<open>None\<close>. The aggregator
  and the rest of the program call nothing that calls itself: their stack stays a few
  frames deep, so they carry no count of frames.
\<close>

definition ProcessComment_call ::
  "ProcessComment \<Rightarrow> Comment \<Rightarrow> exn + (Comment \<times> ProcessComment)" where
  "ProcessComment_call self comment =
     (case c_current comment of
        None \<Rightarrow> Inl TypeError
      | Some currentCommentLine \<Rightarrow>
          (case read_heading_prefix currentCommentLine of
             Some headingPrefix \<Rightarrow>
               (case tutorialHeading headingPrefix currentCommentLine of
                  Inl e \<Rightarrow> Inl e
                | Inr h \<Rightarrow> updateHeading (self\<lparr>keywordsAllowed := True\<rparr>) h comment)
           | None \<Rightarrow>
               (case read_kwords_prefix currentCommentLine of
                  Some kwordsPrefix \<Rightarrow>
                    if \<not> keywordsAllowed self then
                      (case addWarning comment
                              (''Found keywords definition in file with no Tutorial line''
                               @ '': '' @ [CHR 0x27] @ currentCommentLine @ [CHR 0x27]) of
                         Inl e \<Rightarrow> Inl e
                       | Inr c \<Rightarrow> Inr (c, self))
                    else
                      (case tutorialKeywords kwordsPrefix currentCommentLine of
                         Inl e \<Rightarrow> Inl e
                       | Inr k \<Rightarrow> Inr (updateKeywords self k comment))
                | None \<Rightarrow>
                    (let self1 = self\<lparr>keywordsAllowed := False\<rparr>
                     in Inr (setKeywords (setHeading comment (heading self1))
                               (keywordsToString self1), self1)))))"

section \<open>The orchestrator\<close>

text \<open>
  \<open>assess_processing_result\<close> returns a code with the \<open>Comment\<close> (\<open>NOT_DONE\<close>, \<open>DONE\<close>)
  or with the message (\<open>WARNING\<close>, \<open>ERROR\<close>): a tagged value.
\<close>

datatype assessment = NOT_DONE Comment | DONE Comment | WARNING string | ERROR string

definition assess_processing_result :: "Comment \<Rightarrow> assessment" where
  "assess_processing_result comment =
     (if c_error comment \<noteq> [] then ERROR (c_error comment)
      else (let warning = c_warning comment in
            if warning \<noteq> [] then WARNING warning
            else if c_current comment = None then NOT_DONE comment
            else DONE comment))"

text \<open>What \<open>handle_error\<close> and \<open>handle_warning\<close> write on the standard error stream.\<close>

definition handle_error :: "string \<Rightarrow> string \<Rightarrow> string" where
  "handle_error message fileName = fileName @ '':'' @ message @ [CHR 0x0A]"

definition handle_warning :: "string \<Rightarrow> string \<Rightarrow> string" where
  "handle_warning message fileName = ''Warning:'' @ fileName @ '':'' @ message @ [CHR 0x0A]"

text \<open>
  \<open>display_metadata\<close> takes the two streams written so far and returns them extended,
  standard output first, or raises.
\<close>

definition display_metadata :: "Comment \<Rightarrow> string \<times> string \<Rightarrow> exn + string \<times> string" where
  "display_metadata comment io =
     (let h = c_heading comment; keywords = c_keywords comment in
      if h \<noteq> [] \<and> keywords \<noteq> [] then
        Inr (fst io @ h @ [CHR 0x0A] @ ''Keywords: '' @ keywords @ [CHR 0x0A], snd io)
      else if h \<noteq> [] \<and> keywords = [] then
        Inr (fst io @ h @ [CHR 0x0A],
             snd io @ ''Warning: failed to find any tutorial keywords.'' @ [CHR 0x0A])
      else if h = [] \<and> keywords \<noteq> [] then
        Inl (AssertionError ''Found keywords but no tutorial heading.'')
      else Inr io)"

text \<open>
  The flow of control of \<open>process\<close>: an exception that nothing catches, \<open>exit\<close> with the
  standard error stream written so far and the status, or the normal end of a loop.
\<close>

datatype 'a control = Raised exn | Exited string int | Normal 'a

text \<open>
  The \<open>while True\<close> loop over one open file; \<open>err\<close> is the standard error stream so far.
  The loop ends with the \<open>Comment\<close> of \<open>DONE\<close>, the aggregator and the stream. A loop that
  never ends has the value \<open>None\<close>.
\<close>

partial_function (option) scan_file ::
  "string \<Rightarrow> ProcessComment \<Rightarrow> ProcessLine \<Rightarrow> string
   \<Rightarrow> (Comment \<times> ProcessComment \<times> string) control option" where
  "scan_file fn processComment next_comment err =
     (case call next_comment of
        Inl e \<Rightarrow> Some (Raised e)
      | Inr (c, next_comment1) \<Rightarrow>
          (case ProcessComment_call processComment c of
             Inl e \<Rightarrow> Some (Raised e)
           | Inr (c1, processComment1) \<Rightarrow>
               (case assess_processing_result c1 of
                  ERROR m \<Rightarrow>
                    Some (Exited (err @ handle_error m fn @ ''Processing aborted.'' @ [CHR 0x0A]) 1)
                | WARNING m \<Rightarrow>
                    scan_file fn processComment1 next_comment1 (err @ handle_warning m fn)
                | DONE r \<Rightarrow> Some (Normal (r, processComment1, err))
                | NOT_DONE r \<Rightarrow> scan_file fn processComment1 next_comment1 err)))"

text \<open>
  The \<open>for\<close> loop over the files, each given with its lines; \<open>result\<close> is \<open>None\<close> until
  a file has been scanned.
\<close>

fun scan_files ::
  "(string \<times> string list) list \<Rightarrow> Comment option \<Rightarrow> ProcessComment \<Rightarrow> string
   \<Rightarrow> (Comment option \<times> ProcessComment \<times> string) control option" where
  "scan_files [] result processComment err = Some (Normal (result, processComment, err))"
| "scan_files ((fn, fp) # fileNames) result processComment err =
     (case scan_file fn processComment (ProcessLine_init fp) err of
        None \<Rightarrow> None
      | Some (Raised e) \<Rightarrow> Some (Raised e)
      | Some (Exited err1 st) \<Rightarrow> Some (Exited err1 st)
      | Some (Normal (r, processComment1, err1)) \<Rightarrow>
          scan_files fileNames (Some r) processComment1 err1)"

text \<open>
  A finished run: the two standard streams and the exit status. \<open>process\<close> returns
  \<open>Inl\<close> for an exception that nothing catches and \<open>None\<close> for a run that never ends.
\<close>

record run =
  stdout :: string
  stderr :: string
  status :: int

definition process :: "(string \<times> string list) list \<Rightarrow> (exn + run) option" where
  "process fileNames =
     (case scan_files fileNames None ProcessComment_init [] of
        None \<Rightarrow> None
      | Some (Raised e) \<Rightarrow> Some (Inl e)
      | Some (Exited err st) \<Rightarrow> Some (Inr \<lparr>stdout = [], stderr = err, status = st\<rparr>)
      | Some (Normal (result, processComment, err)) \<Rightarrow>
          (case result of
             None \<Rightarrow>
               Some (Inr \<lparr>stdout = [],
                          stderr = err @ ''AssertionError: input file names list empty.''
                                   @ [CHR 0x0A],
                          status = 1\<rparr>)
           | Some r \<Rightarrow>
               (case display_metadata r ([], err) of
                  Inl (AssertionError e) \<Rightarrow>
                    Some (Inr \<lparr>stdout = [],
                               stderr = err @ ''AssertionError: '' @ e @ ''.'' @ [CHR 0x0A],
                               status = 1\<rparr>)
                | Inl e \<Rightarrow> Some (Inl e)
                | Inr (out, err1) \<Rightarrow> Some (Inr \<lparr>stdout = out, stderr = err1, status = 0\<rparr>))))"

declare scan_file.simps [code]

section \<open>Notions the properties are stated with\<close>

text \<open>
  The record that \<open>Comment(lineNo, text)\<close> builds from a string: the text is not
  \<open>None\<close>, no error, no warning, no heading and no keywords are set.
\<close>

definition fresh_comment :: "int \<Rightarrow> Comment \<Rightarrow> bool" where
  "fresh_comment n c =
     (c_lineNo c = n \<and> c_current c \<noteq> None \<and> c_error c = [] \<and> c_warning c = []
      \<and> c_heading c = [] \<and> c_keywords c = [])"

text \<open>
  The states a scanner goes through on the lines \<open>fp\<close> of a file: the one
  \<open>ProcessLine(fp)\<close> builds, and the state after every call that returns.
\<close>

inductive_set scanner_states :: "string list \<Rightarrow> ProcessLine set" for fp :: "string list" where
  initial: "ProcessLine_init fp \<in> scanner_states fp"
| called: "self \<in> scanner_states fp \<Longrightarrow> call self = Inr (c, self') \<Longrightarrow> self' \<in> scanner_states fp"

text \<open>
  What these states share: the continuation pattern is set only after the border pattern.
\<close>

definition scanner_inv :: "ProcessLine \<Rightarrow> bool" where
  "scanner_inv self = (isSecondComment self \<noteq> None \<longrightarrow> borderCommentRE self \<noteq> None)"


text \<open>
  The states an aggregator goes through: the one \<open>ProcessComment()\<close> builds, and the
  state after every call that returns, whatever the \<open>Comment\<close> it is given.
\<close>

inductive_set aggregator_states :: "ProcessComment set" where
  initial: "ProcessComment_init \<in> aggregator_states"
| called: "pc \<in> aggregator_states \<Longrightarrow> ProcessComment_call pc c = Inr (c', pc')
           \<Longrightarrow> pc' \<in> aggregator_states"

definition aggregator_inv :: "ProcessComment \<Rightarrow> bool" where
  "aggregator_inv pc =
     ((keywordsAllowed pc \<longrightarrow> heading pc \<noteq> []) \<and>
      (keywordsSet pc \<noteq> {} \<longrightarrow> heading pc \<noteq> []) \<and> finite (keywordsSet pc))"

text \<open>
  The aggregator after it has consumed the comment line \<open>l\<close> of a record of the scanner.
\<close>

definition feed :: "ProcessComment \<Rightarrow> string \<Rightarrow> ProcessComment" where
  "feed pc l =
     (case ProcessComment_call pc (Comment_init 0 (Some l)) of
        Inl e \<Rightarrow> pc
      | Inr (c, pc') \<Rightarrow> pc')"

text \<open>
  A heading candidate, the argument of \<open>__updateHeading\<close>: \<open>__tutorialHeading\<close> builds it
  from a comment line of the scanner as \<open>Tutorial\<close>, a space and the normalised rest of
  the line, a text that is not empty and that \<open>normalise_text\<close> leaves as it is.
\<close>

definition heading_candidate :: "string \<Rightarrow> bool" where
  "heading_candidate h = (h \<noteq> [] \<and> normalise_text h = h)"


section \<open>Evaluation\<close>

text \<open>The definitions that the simplifier unfolds to run the program on a given input.\<close>

lemmas scan_defs = call_def recursion_limit_def ProcessLine_call.simps frame_def readline_def
  str_rstrip_def str_lstrip_def str_strip_def isspace_def
  getComment_def getFirstComment_def is_comment_def opening_mark_def commentText_def
  tail_after_def define_comment_border_regex_def secondary_comment_matcher_def
  border_matches_def stars_then_def run_matcher_def block_mark_def newComment_def
  Comment_init_def ProcessLine_init_def Let_def

lemmas agg_defs = ProcessComment_call_def read_heading_prefix_def read_kwords_prefix_def
  is_heading_def is_kwords_def str_lower_def lower_char_def upper_char_def char_of_def
  bit_iff_odd str_capitalize_def normalise_text_def tutorialHeading_def tutorialKeywords_def
  updateHeading_def updateKeywords_def storeHeading_def keywordsToString_def
  split_on_commas_def setCurrent_def setHeading_def setKeywords_def addWarning_def
  addError_def updateWarningOrError_def ProcessComment_init_def

lemmas run_defs = process_def scan_file.simps assess_processing_result_def handle_error_def
  handle_warning_def display_metadata_def

section \<open>Basic facts\<close>

lemma take1_eq: "take 1 r = [c] \<longleftrightarrow> (\<exists>t. r = c # t)"
  by (cases r) auto

lemma take2_eq: "take 2 r = [c, d] \<longleftrightarrow> (\<exists>t. r = c # d # t)"
proof (cases r)
  case Nil
  then show ?thesis by simp
next
  case (Cons a t)
  then show ?thesis by (cases t) auto
qed

lemma takeWhile_prefix: "prefix (takeWhile P r) r"
  by (metis prefixI takeWhile_dropWhile_id)

lemma opening_mark_prefix: "opening_mark r = Some m \<Longrightarrow> prefix m r"
  unfolding opening_mark_def
  by (auto simp: takeWhile_prefix split: if_splits) (metis take_is_prefix)+

lemma wrapped_prefix:
  assumes "prefix m (dropWhile isspace line)"
  shows "prefix (takeWhile isspace line @ m @ takeWhile isspace (drop (length m) (dropWhile isspace line))) line"
proof -
  from assms obtain t where t: "dropWhile isspace line = m @ t" by (auto simp: prefix_def)
  have "line = takeWhile isspace line @ dropWhile isspace line" by simp
  also have "\<dots> = takeWhile isspace line @ m @ takeWhile isspace t @ dropWhile isspace t"
    using t by simp
  finally have "line = (takeWhile isspace line @ m @ takeWhile isspace t) @ dropWhile isspace t"
    by simp
  then have "prefix (takeWhile isspace line @ m @ takeWhile isspace t) line"
    by (rule prefixI)
  then show ?thesis using t by simp
qed

lemma is_comment_prefix: "is_comment line = Some (g, m) \<Longrightarrow> prefix g line"
  unfolding is_comment_def Let_def
  by (auto split: option.splits dest!: opening_mark_prefix intro: wrapped_prefix)

lemma take_Suc0_eq: "take (Suc 0) r = [c] \<longleftrightarrow> (\<exists>t. r = c # t)"
  by (cases r) auto

lemma opening_mark_cases:
  assumes "opening_mark r = Some m"
  shows "(\<exists>t. m = CHR ''#'' # t) \<or> (\<exists>t. m = CHR '';'' # t) \<or> m = ''/*'' \<or> m = ''//''
         \<or> m = ''--'' \<or> m = ''(*''"
  using assms unfolding opening_mark_def
  by (auto simp: take_Suc0_eq split: if_splits)

lemma frame_0 [simp]: "frame 0 body = Inl RuntimeError"
  by (simp add: frame_def)

lemma frame_Suc [simp]: "frame (Suc d) body = body d"
  by (simp add: frame_def)

lemma newComment_eq:
  "newComment d self t =
     (if d < 2 then Inl RuntimeError else Inr (Comment_init (lineNo self) t))"
  by (auto simp: newComment_def frame_def)

lemma opening_mark_border:
  "opening_mark r = Some m \<Longrightarrow>
   \<exists>b k. k \<le> 2 \<and> (\<forall>d. define_comment_border_regex d m =
                      (if d < k then Inl RuntimeError else Inr (Some b)))"
proof (drule opening_mark_cases, elim disjE exE)
  fix t assume "m = CHR ''#'' # t"
  then have "\<forall>d. define_comment_border_regex d m =
               (if d < 2 then Inl RuntimeError else Inr (Some (Border_single m)))"
    by (auto simp: define_comment_border_regex_def frame_def)
  then show ?thesis by blast
next
  fix t assume "m = CHR '';'' # t"
  then have "\<forall>d. define_comment_border_regex d m =
               (if d < 2 then Inl RuntimeError else Inr (Some (Border_single m)))"
    by (auto simp: define_comment_border_regex_def frame_def)
  then show ?thesis by blast
next
  assume "m = ''/*''"
  then have "\<forall>d. define_comment_border_regex d m =
               (if d < 1 then Inl RuntimeError else Inr (Some Border_slash_star))"
    by (auto simp: define_comment_border_regex_def frame_def)
  then show ?thesis by (intro exI[of _ Border_slash_star] exI[of _ 1]) simp
next
  assume "m = ''//''"
  then have "\<forall>d. define_comment_border_regex d m =
               (if d < 2 then Inl RuntimeError else Inr (Some (Border_single m)))"
    by (auto simp: define_comment_border_regex_def frame_def)
  then show ?thesis by blast
next
  assume "m = ''--''"
  then have "\<forall>d. define_comment_border_regex d m =
               (if d < 2 then Inl RuntimeError else Inr (Some (Border_single m)))"
    by (auto simp: define_comment_border_regex_def frame_def)
  then show ?thesis by blast
next
  assume "m = ''(*''"
  then have "\<forall>d. define_comment_border_regex d m =
               (if d < 1 then Inl RuntimeError else Inr (Some Border_paren_star))"
    by (auto simp: define_comment_border_regex_def frame_def)
  then show ?thesis by (intro exI[of _ Border_paren_star] exI[of _ 1]) simp
qed

lemma opening_mark_secondary:
  "opening_mark r = Some m \<Longrightarrow>
   \<exists>s k. k \<le> 2 \<and> (\<forall>d. secondary_comment_matcher d m =
                      (if d < k then Inl RuntimeError else Inr (Some s)))"
proof (drule opening_mark_cases, elim disjE exE)
  fix t assume "m = CHR ''#'' # t"
  then have "\<forall>d. secondary_comment_matcher d m =
               (if d < 2 then Inl RuntimeError else Inr (Some (Single_mark m)))"
    by (auto simp: secondary_comment_matcher_def frame_def)
  then show ?thesis by blast
next
  fix t assume "m = CHR '';'' # t"
  then have "\<forall>d. secondary_comment_matcher d m =
               (if d < 2 then Inl RuntimeError else Inr (Some (Single_mark m)))"
    by (auto simp: secondary_comment_matcher_def frame_def)
  then show ?thesis by blast
next
  assume "m = ''/*''"
  then have "\<forall>d. secondary_comment_matcher d m =
               (if d < 1 then Inl RuntimeError else Inr (Some Slash_star))"
    by (auto simp: secondary_comment_matcher_def frame_def)
  then show ?thesis by (intro exI[of _ Slash_star] exI[of _ 1]) simp
next
  assume "m = ''//''"
  then have "\<forall>d. secondary_comment_matcher d m =
               (if d < 2 then Inl RuntimeError else Inr (Some (Single_mark m)))"
    by (auto simp: secondary_comment_matcher_def frame_def)
  then show ?thesis by blast
next
  assume "m = ''--''"
  then have "\<forall>d. secondary_comment_matcher d m =
               (if d < 2 then Inl RuntimeError else Inr (Some (Single_mark m)))"
    by (auto simp: secondary_comment_matcher_def frame_def)
  then show ?thesis by blast
next
  assume "m = ''(*''"
  then have "\<forall>d. secondary_comment_matcher d m =
               (if d < 1 then Inl RuntimeError else Inr (Some Paren_star))"
    by (auto simp: secondary_comment_matcher_def frame_def)
  then show ?thesis by (intro exI[of _ Paren_star] exI[of _ 1]) simp
qed

lemma is_comment_border:
  "is_comment line = Some (g, m) \<Longrightarrow>
   \<exists>b k. k \<le> 2 \<and> (\<forall>d. define_comment_border_regex d m =
                      (if d < k then Inl RuntimeError else Inr (Some b)))"
proof -
  assume "is_comment line = Some (g, m)"
  then have "opening_mark (dropWhile isspace line) = Some m"
    by (auto simp: is_comment_def Let_def split: option.splits)
  then show ?thesis by (rule opening_mark_border)
qed

lemma is_comment_secondary:
  "is_comment line = Some (g, m) \<Longrightarrow>
   \<exists>s k. k \<le> 2 \<and> (\<forall>d. secondary_comment_matcher d m =
                      (if d < k then Inl RuntimeError else Inr (Some s)))"
proof -
  assume "is_comment line = Some (g, m)"
  then have "opening_mark (dropWhile isspace line) = Some m"
    by (auto simp: is_comment_def Let_def split: option.splits)
  then show ?thesis by (rule opening_mark_secondary)
qed

lemma block_mark_prefix: "block_mark opener r = Some k \<Longrightarrow> prefix k r"
  unfolding block_mark_def
  by (auto simp: takeWhile_prefix split: if_splits) (metis take_is_prefix)

lemma run_matcher_prefix: "run_matcher m line = Some g \<Longrightarrow> prefix g line"
  unfolding run_matcher_def Let_def
  by (auto split: option.splits matcher.splits if_splits
           dest!: block_mark_prefix intro: wrapped_prefix)

lemma tail_after_prefix: "prefix g line \<Longrightarrow> tail_after line g = Inr (drop (length g) line)"
  by (auto simp: tail_after_def Let_def dest: prefix_length_le)

lemma fresh_Comment_init [simp]: "fresh_comment n (Comment_init n (Some t))"
  by (simp add: fresh_comment_def Comment_init_def)

lemma commentText_None:
  "commentText d self line None = (if d = 0 then Inl RuntimeError else Inr None)"
  by (simp add: commentText_def frame_def)

lemma commentText_Some:
  "prefix g line \<Longrightarrow> borderCommentRE self = Some b \<Longrightarrow>
   commentText d self line (Some g) =
     (if d < 2 then Inl RuntimeError
      else Inr (Some (str_strip (re_sub_border b (drop (length g) line)))))"
  by (auto simp: commentText_def frame_def tail_after_prefix)

lemma getFirstComment_outcome:
  "(getFirstComment d self line = Inl RuntimeError \<and> d < 3) \<or>
   (\<exists>st self'. getFirstComment d self line = Inr (st, self')
      \<and> lineNo self' = lineNo self
      \<and> (scanner_inv self \<longrightarrow> scanner_inv self')
      \<and> (\<forall>c. st = Return c \<longrightarrow> fresh_comment (lineNo self) c)
      \<and> (\<forall>k. st = Call_again k \<longrightarrow> Suc k = d))"
proof (cases d)
  case 0
  then show ?thesis by (simp add: getFirstComment_def)
next
  case (Suc d1)
  show ?thesis
  proof (cases "is_comment line")
    case None
    then show ?thesis using Suc
      by (auto simp: getFirstComment_def newComment_eq)
  next
    case (Some gm)
    obtain g m where gm: "gm = (g, m)" by (cases gm)
    from Some gm have ic: "is_comment line = Some (g, m)" by simp
    from is_comment_border[OF ic] obtain b kb where kb: "kb \<le> 2"
      and b: "\<And>d. define_comment_border_regex d m =
                    (if d < kb then Inl RuntimeError else Inr (Some b))"
      by blast
    from is_comment_secondary[OF ic] obtain s ks where ks: "ks \<le> 2"
      and s: "\<And>d. secondary_comment_matcher d m =
                    (if d < ks then Inl RuntimeError else Inr (Some s))"
      by blast
    from ic have p: "prefix g line" by (rule is_comment_prefix)
    have ct: "commentText d1 (self\<lparr>borderCommentRE := Some b\<rparr>) line (Some g)
              = (if d1 < 2 then Inl RuntimeError
                 else Inr (Some (str_strip (re_sub_border b (drop (length g) line)))))"
      using p by (simp add: commentText_Some)
    show ?thesis
    proof (cases "take 3 line = ''#!/''")
      case True
      then show ?thesis using Suc ic by (simp add: getFirstComment_def)
    next
      case False
      show ?thesis
      proof (cases "d1 < 2")
        case True
        then have "getFirstComment d self line = Inl RuntimeError"
          using Suc ic False b ct by (simp add: getFirstComment_def Let_def)
        then show ?thesis using True Suc by simp
      next
        case d1: False
        then have "\<not> d1 < kb" "\<not> d1 < ks" using kb ks by auto
        then show ?thesis using Suc ic False b s ct d1
          by (simp add: getFirstComment_def Let_def newComment_eq scanner_inv_def)
      qed
    qed
  qed
qed

lemma getComment_outcome:
  assumes "scanner_inv self"
  shows "(getComment d self line = Inl RuntimeError \<and> d < 4) \<or>
   (\<exists>st self'. getComment d self line = Inr (st, self')
      \<and> lineNo self' = lineNo self
      \<and> scanner_inv self'
      \<and> (\<forall>c. st = Return c \<longrightarrow> fresh_comment (lineNo self) c)
      \<and> (\<forall>k. st = Call_again k \<longrightarrow> k < d \<and> d \<le> k + 2))"
proof (cases d)
  case 0
  then show ?thesis by (simp add: getComment_def)
next
  case (Suc d1)
  show ?thesis
  proof (cases "isSecondComment self")
    case None
    then have eq: "getComment d self line = getFirstComment d1 self line"
      using Suc by (simp add: getComment_def)
    from getFirstComment_outcome[of d1 self line] show ?thesis
      unfolding eq using Suc assms by auto
  next
    case (Some m)
    with assms obtain b where b: "borderCommentRE self = Some b"
      by (auto simp: scanner_inv_def)
    show ?thesis
    proof (cases "run_matcher m line")
      case None
      then show ?thesis using Some assms Suc
        by (auto simp: getComment_def commentText_None newComment_eq)
    next
      case (Some g)
      then have "prefix g line" by (rule run_matcher_prefix)
      then show ?thesis using Some \<open>isSecondComment self = Some m\<close> b assms Suc
        by (auto simp: getComment_def commentText_Some newComment_eq)
    qed
  qed
qed

lemma call_0 [simp]: "ProcessLine_call 0 self = Inl RuntimeError"
  by (subst ProcessLine_call.simps) simp

lemma call_Nil:
  "file_pointer self = [] \<Longrightarrow>
   ProcessLine_call d self =
     (if d < 3 then Inl RuntimeError
      else Inr (Comment_init (lineNo self + 1) (Some []), self\<lparr>lineNo := lineNo self + 1\<rparr>))"
  by (subst ProcessLine_call.simps)
     (auto simp: readline_def str_rstrip_def newComment_eq Let_def)

lemma call_Cons:
  "file_pointer self = raw # fp \<Longrightarrow>
   ProcessLine_call d self =
     (if d = 0 then Inl RuntimeError
      else
        (let self1 = self\<lparr>file_pointer := fp, lineNo := lineNo self + 1\<rparr> in
         if str_rstrip raw = [] then
           (if d < 3 then Inl RuntimeError
            else Inr (Comment_init (lineNo self + 1) (Some []), self1))
         else (case getComment (d - 1) self1 (str_rstrip raw) of
                 Inl e \<Rightarrow> Inl e
               | Inr (Return c, self2) \<Rightarrow> Inr (c, self2)
               | Inr (Call_again k, self2) \<Rightarrow> ProcessLine_call k self2)))"
  by (subst ProcessLine_call.simps) (auto simp: readline_def newComment_eq Let_def)

lemma call_induct [case_names step]:
  assumes "\<And>d self. (\<And>raw fp k self2. 0 < d \<Longrightarrow> file_pointer self = raw # fp \<Longrightarrow>
              str_rstrip raw \<noteq> [] \<Longrightarrow>
              getComment (d - 1) (self\<lparr>file_pointer := fp, lineNo := lineNo self + 1\<rparr>)
                (str_rstrip raw) = Inr (Call_again k, self2) \<Longrightarrow> P k self2) \<Longrightarrow> P d self"
  shows "P n a"
proof (induction n a rule: ProcessLine_call.induct)
  case (1 d self)
  show ?case
  proof (rule assms)
    fix raw fp k self2
    assume d: "0 < d" and fp: "file_pointer self = raw # fp" and ne: "str_rstrip raw \<noteq> []"
      and gc: "getComment (d - 1) (self\<lparr>file_pointer := fp, lineNo := lineNo self + 1\<rparr>)
                 (str_rstrip raw) = Inr (Call_again k, self2)"
    have rl: "(raw, fp) = readline (file_pointer self)"
      using fp by (simp add: readline_def)
    from d have d0: "d \<noteq> 0" by simp
    show "P k self2"
      by (rule "1.IH"[OF d0 rl refl refl ne gc refl refl])
  qed
qed

lemma call_outcome:
  "scanner_inv self \<Longrightarrow>
   ProcessLine_call d self = Inl RuntimeError \<or>
   (\<exists>c self'. ProcessLine_call d self = Inr (c, self') \<and> scanner_inv self'
       \<and> fresh_comment (lineNo self') c)"
proof (induction d self rule: call_induct)
  case (step d self)
  show ?case
  proof (cases "file_pointer self")
    case Nil
    then show ?thesis using step.prems by (simp add: call_Nil scanner_inv_def)
  next
    case (Cons raw fp)
    define self1 where "self1 = self\<lparr>file_pointer := fp, lineNo := lineNo self + 1\<rparr>"
    have inv1: "scanner_inv self1"
      using step.prems by (simp add: self1_def scanner_inv_def)
    have ln1: "lineNo self1 = lineNo self + 1" by (simp add: self1_def)
    show ?thesis
    proof (cases "d = 0")
      case True
      then show ?thesis by simp
    next
      case d: False
      show ?thesis
      proof (cases "str_rstrip raw = []")
        case True
        then show ?thesis using Cons inv1 ln1 d
          by (simp add: call_Cons self1_def[symmetric] Let_def)
      next
        case False
        from getComment_outcome[OF inv1, of "d - 1" "str_rstrip raw"]
        show ?thesis
        proof (elim disjE conjE exE)
          assume "getComment (d - 1) self1 (str_rstrip raw) = Inl RuntimeError"
          then show ?thesis using Cons False d
            by (simp add: call_Cons self1_def[symmetric] Let_def)
        next
          fix st self2
          assume gc: "getComment (d - 1) self1 (str_rstrip raw) = Inr (st, self2)"
            and ln: "lineNo self2 = lineNo self1" and inv2: "scanner_inv self2"
            and ret: "\<forall>c. st = Return c \<longrightarrow> fresh_comment (lineNo self1) c"
          show ?thesis
          proof (cases st)
            case (Return c)
            then show ?thesis using Cons False gc ln inv2 ret d
              by (simp add: call_Cons self1_def[symmetric] Let_def)
          next
            case (Call_again k)
            have "ProcessLine_call k self2 = Inl RuntimeError \<or>
                  (\<exists>c self'. ProcessLine_call k self2 = Inr (c, self') \<and> scanner_inv self'
                      \<and> fresh_comment (lineNo self') c)"
              using step.IH[OF _ Cons False, of k self2] gc Call_again inv2 d
              by (simp add: self1_def)
            then show ?thesis using Cons False gc Call_again d
              by (simp add: call_Cons self1_def[symmetric] Let_def)
          qed
        qed
      qed
    qed
  qed
qed


lemma call_consumes:
  "ProcessLine_call d self = Inr (c, self') \<Longrightarrow> file_pointer self \<noteq> [] \<Longrightarrow>
   length (file_pointer self') < length (file_pointer self)"
proof (induction d self rule: call_induct)
  case (step d self)
  from step.prems(2) obtain raw fp where Cons: "file_pointer self = raw # fp"
    by (cases "file_pointer self") auto
  define self1 where "self1 = self\<lparr>file_pointer := fp, lineNo := lineNo self + 1\<rparr>"
  have d: "d \<noteq> 0" using step.prems(1) by (cases "d = 0") auto
  show ?case
  proof (cases "str_rstrip raw = []")
    case True
    then show ?thesis using Cons step.prems(1) d
      by (auto simp: call_Cons Let_def split: if_splits)
  next
    case False
    show ?thesis
    proof (cases "getComment (d - 1) self1 (str_rstrip raw)")
      case (Inl e)
      then show ?thesis using Cons False step.prems(1) d
        by (simp add: call_Cons self1_def[symmetric] Let_def)
    next
      case (Inr p)
      obtain st self2 where p: "p = (st, self2)" by (cases p)
      from Inr p have fp2: "file_pointer self2 = fp"
        by (auto dest: getComment_file_pointer simp: self1_def)
      show ?thesis
      proof (cases st)
        case (Return c')
        then show ?thesis using Cons False step.prems(1) Inr p fp2 d
          by (auto simp: call_Cons self1_def[symmetric] Let_def)
      next
        case (Call_again k)
        have eq: "ProcessLine_call d self = ProcessLine_call k self2"
          using Cons False Inr p Call_again d
          by (simp add: call_Cons self1_def[symmetric] Let_def)
        show ?thesis
        proof (cases "fp = []")
          case True
          then show ?thesis using eq step.prems(1) Cons fp2
            by (auto simp: call_Nil split: if_splits)
        next
          case False
          have "length (file_pointer self') < length (file_pointer self2)"
            using step.IH[OF _ Cons \<open>str_rstrip raw \<noteq> []\<close>, of k self2]
              Inr p Call_again eq step.prems(1) fp2 False d
            by (simp add: self1_def)
          then show ?thesis using Cons fp2 by simp
        qed
      qed
    qed
  qed
qed




lemma addWarning_eq [simp]: "addWarning c m = Inr (c\<lparr>c_warning := m\<rparr>)"
  by (simp add: addWarning_def updateWarningOrError_def)

lemma addError_eq [simp]: "addError c m = Inr (c\<lparr>c_error := m\<rparr>)"
  by (simp add: addError_def updateWarningOrError_def)

lemma is_heading_prefix: "is_heading s = Some g \<Longrightarrow> prefix g s \<and> g \<noteq> []"
proof -
  assume a: "is_heading s = Some g"
  let ?r = "dropWhile isspace s"
  from a have l: "str_lower (take 8 ?r) = ''tutorial''"
    and g: "g = takeWhile isspace s @ take 8 ?r @ takeWhile isspace (drop 8 ?r)"
    by (auto simp: is_heading_def Let_def split: if_splits)
  have "length (str_lower (take 8 ?r)) = length ''tutorial''"
    using l by (rule arg_cong)
  then have len: "length (take 8 ?r) = 8"
    by (simp add: str_lower_def del: length_take)
  have "prefix (takeWhile isspace s @ take 8 ?r @ takeWhile isspace (drop (length (take 8 ?r)) ?r)) s"
    by (rule wrapped_prefix) (rule take_is_prefix)
  then have "prefix g s" using g len by simp
  moreover have "8 \<le> length g" using len unfolding g by (simp del: length_take)
  then have "g \<noteq> []" by auto
  ultimately show ?thesis ..
qed


lemma is_kwords_prefix: "is_kwords s = Some g \<Longrightarrow> prefix g s \<and> g \<noteq> []"
proof -
  assume a: "is_kwords s = Some g"
  let ?r = "dropWhile isspace s"
  let ?r1 = "drop 6 ?r"
  from a have l: "str_lower (take 6 ?r) = ''kwords''"
    and c: "take 1 (dropWhile isspace ?r1) = '':''"
    and g: "g = takeWhile isspace s @ take 6 ?r @ takeWhile isspace ?r1 @ '':''"
    by (auto simp: is_kwords_def Let_def split: if_splits)
  from c obtain t where t: "dropWhile isspace ?r1 = CHR '':'' # t"
    by (auto simp: take_Suc0_eq)
  have "s = takeWhile isspace s @ ?r" by simp
  also have "?r = take 6 ?r @ ?r1" by simp
  also have "?r1 = takeWhile isspace ?r1 @ dropWhile isspace ?r1" by simp
  finally have "s = g @ t" using t g by simp
  then show ?thesis using g by (auto simp: prefix_def)
qed

lemma read_heading_prefix_prefix: "read_heading_prefix s = Some g \<Longrightarrow> prefix g s"
  by (auto simp: read_heading_prefix_def split: option.splits if_splits dest: is_heading_prefix)

lemma read_kwords_prefix_prefix: "read_kwords_prefix s = Some g \<Longrightarrow> prefix g s"
  by (auto simp: read_kwords_prefix_def split: option.splits if_splits dest: is_kwords_prefix)

lemma heading_not_kwords: "is_kwords s = Some g \<Longrightarrow> is_heading s = None"
proof -
  assume a: "is_kwords s = Some g"
  let ?r = "dropWhile isspace s"
  from a have l: "str_lower (take 6 ?r) = ''kwords''"
    by (auto simp: is_kwords_def Let_def split: if_splits)
  then obtain c t where r: "?r = c # t" and c: "lower_char c = CHR ''k''"
    by (cases ?r) (auto simp: str_lower_def)
  then have "str_lower (take 8 ?r) \<noteq> ''tutorial''"
    by (auto simp: str_lower_def)
  then show ?thesis by (simp add: is_heading_def Let_def)
qed

lemma updateHeading_total:
  "\<exists>c' pc'. updateHeading pc h c = Inr (c', pc')"
  by (simp add: updateHeading_def Let_def)

lemma ProcessComment_call_total:
  "c_current c = Some l \<Longrightarrow> \<exists>c' pc'. ProcessComment_call pc c = Inr (c', pc')"
  by (auto simp: ProcessComment_call_def tutorialHeading_def tutorialKeywords_def
        tail_after_prefix updateHeading_total Let_def
      split: option.splits
      dest!: read_heading_prefix_prefix read_kwords_prefix_prefix)

lemma keywordsToString_gate [simp]:
  "keywordsToString (pc\<lparr>keywordsAllowed := b\<rparr>) = keywordsToString pc"
  by (simp add: keywordsToString_def)

lemma read_heading_prefix_Nil [simp]: "read_heading_prefix [] = None"
  by (simp add: read_heading_prefix_def is_heading_def str_lower_def)

lemma read_kwords_prefix_Nil [simp]: "read_kwords_prefix [] = None"
  by (simp add: read_kwords_prefix_def is_kwords_def str_lower_def)

lemma ProcessComment_call_closing:
  "c_current c = Some l \<Longrightarrow> read_heading_prefix l = None \<Longrightarrow> read_kwords_prefix l = None \<Longrightarrow>
   ProcessComment_call pc c =
     Inr (c\<lparr>c_heading := heading pc, c_keywords := keywordsToString pc\<rparr>,
          pc\<lparr>keywordsAllowed := False\<rparr>)"
  by (simp add: ProcessComment_call_def setKeywords_def setHeading_def Let_def)

lemma assess_closing:
  "fresh_comment n c \<Longrightarrow>
   assess_processing_result (c\<lparr>c_heading := h, c_keywords := k\<rparr>)
     = DONE (c\<lparr>c_heading := h, c_keywords := k\<rparr>)"
  by (auto simp: assess_processing_result_def fresh_comment_def)

lemma call_entry_outcome:
  "scanner_inv self \<Longrightarrow>
   call self = Inl RuntimeError \<or>
   (\<exists>c self'. call self = Inr (c, self') \<and> scanner_inv self'
       \<and> fresh_comment (lineNo self') c)"
  unfolding call_def by (rule call_outcome)

lemma call_entry_Nil:
  "file_pointer self = [] \<Longrightarrow>
   call self = Inr (Comment_init (lineNo self + 1) (Some []), self\<lparr>lineNo := lineNo self + 1\<rparr>)"
  by (simp add: call_def recursion_limit_def call_Nil)

lemma call_entry_consumes:
  "call self = Inr (c, self') \<Longrightarrow> file_pointer self \<noteq> [] \<Longrightarrow>
   length (file_pointer self') < length (file_pointer self)"
  unfolding call_def by (rule call_consumes)

lemma scan_file_terminates:
  "scanner_inv nc \<Longrightarrow>
   \<exists>r. scan_file fn pc nc err = Some r \<and> (\<forall>e. r = Raised e \<longrightarrow> e = RuntimeError)"
proof (induction "length (file_pointer nc)" arbitrary: nc pc err rule: less_induct)
  case less
  from call_entry_outcome[OF less.prems] show ?case
  proof (elim disjE exE conjE)
    assume "call nc = Inl RuntimeError"
    then show ?thesis by (subst scan_file.simps) simp
  next
    fix c nc1
    assume cl: "call nc = Inr (c, nc1)" and inv1: "scanner_inv nc1"
      and fr: "fresh_comment (lineNo nc1) c"
    from fr obtain l where l: "c_current c = Some l"
      by (auto simp: fresh_comment_def)
    from ProcessComment_call_total[OF l] obtain c1 pc1 where
      pc: "ProcessComment_call pc c = Inr (c1, pc1)" by blast
    have rec: "\<exists>r. scan_file fn pc1 nc1 err' = Some r \<and> (\<forall>e. r = Raised e \<longrightarrow> e = RuntimeError)"
      if "\<forall>r. assess_processing_result c1 \<noteq> DONE r" for err'
    proof -
      have "file_pointer nc \<noteq> []"
      proof
        assume e: "file_pointer nc = []"
        with cl have "c_current c = Some []" "fresh_comment (c_lineNo c) c"
          by (auto simp: call_entry_Nil Comment_init_def fresh_comment_def)
        with pc have "assess_processing_result c1 = DONE c1"
          by (auto simp: ProcessComment_call_closing assess_closing)
        with that show False by simp
      qed
      with cl have "length (file_pointer nc1) < length (file_pointer nc)"
        by (rule call_entry_consumes)
      then show ?thesis using inv1 by (rule less.hyps)
    qed
    show ?thesis
    proof (cases "assess_processing_result c1")
      case (NOT_DONE r)
      with rec[of err] show ?thesis using cl pc
        by (subst scan_file.simps) simp
    next
      case (DONE r)
      then show ?thesis using cl pc by (subst scan_file.simps) simp
    next
      case (WARNING m)
      with rec[of "err @ handle_warning m fn"] show ?thesis using cl pc
        by (subst scan_file.simps) simp
    next
      case (ERROR m)
      then show ?thesis using cl pc by (subst scan_file.simps) simp
    qed
  qed
qed

lemma gate_False_id: "\<not> keywordsAllowed pc \<Longrightarrow> pc\<lparr>keywordsAllowed := False\<rparr> = pc"
  by simp



lemma char_of_eq_D: "char_of (n::nat) = c \<Longrightarrow> n mod 256 = of_char c"
  by (metis of_char_of)

lemma isspace_lower_char [simp]: "isspace (lower_char c) = isspace c"
  unfolding isspace_def lower_char_def Let_def
  by (auto dest!: char_of_eq_D)

lemma isspace_upper_char [simp]: "isspace (upper_char c) = isspace c"
  unfolding isspace_def upper_char_def Let_def
  by (auto dest!: char_of_eq_D)


lemma re_sub_spaces_Nil_iff [simp]: "re_sub_spaces s = [] \<longleftrightarrow> s = []"
  by (cases s) auto

lemma str_rstrip_Nil_iff: "str_rstrip s = [] \<longleftrightarrow> (\<forall>c\<in>set s. isspace c)"
  by (auto simp: str_rstrip_def dropWhile_eq_Nil_conv)

lemma str_strip_Nil_iff: "str_strip s = [] \<longleftrightarrow> (\<forall>c\<in>set s. isspace c)"
proof -
  have "(\<forall>c\<in>set (dropWhile isspace s). isspace c) \<longleftrightarrow> (\<forall>c\<in>set s. isspace c)"
    by (metis dropWhile_eq_Nil_conv dropWhile_idem empty_iff list.set(1))
  then show ?thesis
    by (simp add: str_strip_def str_lstrip_def str_rstrip_Nil_iff)
qed

lemma normalise_text_Nil_iff: "normalise_text s = [] \<longleftrightarrow> (\<forall>c\<in>set s. isspace c)"
  by (simp add: normalise_text_def str_strip_Nil_iff)

lemma filter_dropWhile_not: "filter (\<lambda>c. \<not> P c) (dropWhile P s) = filter (\<lambda>c. \<not> P c) s"
  by (induction s) auto

lemma nonspace_strip:
  "filter (\<lambda>c. \<not> isspace c) (str_strip s) = filter (\<lambda>c. \<not> isspace c) s"
proof -
  have "filter (\<lambda>c. \<not> isspace c) (str_rstrip t) = filter (\<lambda>c. \<not> isspace c) t" for t
    unfolding str_rstrip_def by (simp only: rev_filter[symmetric] filter_dropWhile_not) simp
  then show ?thesis
    by (simp add: str_strip_def str_lstrip_def filter_dropWhile_not)
qed

lemma nonspace_re_sub_spaces:
  "filter (\<lambda>c. \<not> isspace c) (re_sub_spaces s) = filter (\<lambda>c. \<not> isspace c) s"
proof (induction s rule: re_sub_spaces.induct)
  case 1
  show ?case by simp
next
  case (2 c cs)
  have sp: "isspace CHR '' ''" by (simp add: isspace_def)
  show ?case
  proof (cases "isspace c")
    case True
    then show ?thesis using 2 sp by (simp add: filter_dropWhile_not)
  next
    case False
    then show ?thesis using 2 by simp
  qed
qed

lemma nonspace_normalise_text:
  "filter (\<lambda>c. \<not> isspace c) (normalise_text s) = filter (\<lambda>c. \<not> isspace c) s"
  by (simp add: normalise_text_def nonspace_re_sub_spaces nonspace_strip)

lemma nonspace_str_capitalize:
  "(\<exists>c\<in>set (str_capitalize s). \<not> isspace c) \<longleftrightarrow> (\<exists>c\<in>set s. \<not> isspace c)"
  by (cases s) (auto simp: str_capitalize_def)

lemma has_nonspace_normalise_text:
  "(\<exists>c\<in>set (normalise_text s). \<not> isspace c) \<longleftrightarrow> (\<exists>c\<in>set s. \<not> isspace c)"
proof -
  have "(\<exists>c\<in>set t. \<not> isspace c) \<longleftrightarrow> filter (\<lambda>c. \<not> isspace c) t \<noteq> []" for t
    by (simp add: filter_empty_conv)
  then show ?thesis by (simp add: nonspace_normalise_text)
qed

lemma heading_prefix_nonspace:
  assumes "is_heading s = Some g"
  shows "\<exists>c\<in>set g. \<not> isspace c"
proof -
  let ?r = "dropWhile isspace s"
  from assms have l: "str_lower (take 8 ?r) = ''tutorial''"
    and g: "g = takeWhile isspace s @ take 8 ?r @ takeWhile isspace (drop 8 ?r)"
    by (auto simp: is_heading_def Let_def split: if_splits)
  from l obtain c t where r: "take 8 ?r = c # t" and c: "lower_char c = CHR ''t''"
    by (cases "take 8 ?r") (auto simp: str_lower_def)
  have "\<not> isspace (lower_char c)" unfolding c by (simp add: isspace_def)
  then have "\<not> isspace c" by simp
  then show ?thesis using g r by auto
qed

lemma tutorialHeading_nonempty:
  assumes "read_heading_prefix l = Some p" "tutorialHeading p l = Inr h"
  shows "normalise_text h \<noteq> []"
proof -
  from assms(1) have "is_heading l = Some p"
    by (auto simp: read_heading_prefix_def split: option.splits if_splits)
  then have "\<exists>c\<in>set p. \<not> isspace c" by (rule heading_prefix_nonspace)
  then have "\<exists>c\<in>set (str_capitalize (normalise_text p)). \<not> isspace c"
    by (simp only: nonspace_str_capitalize has_nonspace_normalise_text)
  moreover from assms(2) obtain t where
    "h = str_capitalize (normalise_text p) @ '' '' @ normalise_text t"
    by (auto simp: tutorialHeading_def split: sum.splits)
  ultimately have "\<exists>c\<in>set h. \<not> isspace c" by auto
  then show ?thesis by (auto simp: normalise_text_Nil_iff)
qed

lemma foldl_insert: "foldl (\<lambda>S kw. insert kw S) S xs = S \<union> set xs"
  by (induction xs arbitrary: S) auto

lemma updateKeywords_eq:
  "updateKeywords pc k c =
     (c\<lparr>c_current := None\<rparr>, pc\<lparr>keywordsSet := keywordsSet pc \<union> set (split_on_commas k)\<rparr>)"
  by (simp add: updateKeywords_def foldl_insert setCurrent_def)

lemma updateHeading_frame:
  assumes "updateHeading pc h c = Inr (c', pc')"
  shows "keywordsSet pc' = keywordsSet pc \<and> keywordsAllowed pc' = keywordsAllowed pc
         \<and> (heading pc' = heading pc \<or> heading pc' = normalise_text h)"
  using assms
  by (auto simp: updateHeading_def storeHeading_def Let_def split: if_splits)

lemma updateHeading_verdict:
  assumes "updateHeading pc h c = Inr (c', pc')"
  shows "c_current c' = None \<or> c_error c' \<noteq> []"
  using assms
  by (auto simp: updateHeading_def setCurrent_def Let_def split: if_splits)

lemma ProcessComment_call_inv:
  assumes "aggregator_inv pc" "ProcessComment_call pc c = Inr (c', pc')"
  shows "aggregator_inv pc'"
proof (cases "c_current c")
  case None
  with assms(2) show ?thesis by (simp add: ProcessComment_call_def)
next
  case (Some l)
  show ?thesis
  proof (cases "read_heading_prefix l")
    case hp: (Some p)
    from assms(2) Some hp obtain h where h: "tutorialHeading p l = Inr h"
      and u: "updateHeading (pc\<lparr>keywordsAllowed := True\<rparr>) h c = Inr (c', pc')"
      by (auto simp: ProcessComment_call_def split: sum.splits)
    from hp h have ne: "normalise_text h \<noteq> []" by (rule tutorialHeading_nonempty)
    from updateHeading_frame[OF u] have
      k: "keywordsSet pc' = keywordsSet pc"
      and hd: "heading pc' = heading pc \<or> heading pc' = normalise_text h"
      by auto
    have "heading pc' \<noteq> []"
    proof (cases "heading pc = []")
      case True
      with u have "heading pc' = normalise_text h"
        by (auto simp: updateHeading_def storeHeading_def)
      with ne show ?thesis by simp
    next
      case False
      with hd ne show ?thesis by auto
    qed
    then show ?thesis using assms(1) k by (simp add: aggregator_inv_def)
  next
    case nh: None
    show ?thesis
    proof (cases "read_kwords_prefix l")
      case None
      with assms Some nh show ?thesis
        by (auto simp: ProcessComment_call_closing aggregator_inv_def)
    next
      case kp: (Some p)
      show ?thesis
      proof (cases "keywordsAllowed pc")
        case False
        with assms Some nh kp show ?thesis
          by (auto simp: ProcessComment_call_def)
      next
        case True
        with assms Some nh kp show ?thesis
          by (auto simp: ProcessComment_call_def updateKeywords_eq aggregator_inv_def split: sum.splits)
      qed
    qed
  qed
qed

lemma ProcessComment_call_DONE:
  assumes "ProcessComment_call pc c = Inr (c', pc')" "c_error c = []" "c_warning c = []"
      and "assess_processing_result c' = DONE r"
  shows "r = c' \<and> pc' = pc\<lparr>keywordsAllowed := False\<rparr>
         \<and> c_heading c' = heading pc \<and> c_keywords c' = keywordsToString pc"
proof -
  from assms(4) have r: "r = c'" and e: "c_error c' = []" and w: "c_warning c' = []"
    and cur: "c_current c' \<noteq> None"
    by (auto simp: assess_processing_result_def Let_def split: if_splits)
  from assms(1) obtain l where l: "c_current c = Some l"
    by (cases "c_current c") (auto simp: ProcessComment_call_def)
  have nh: "read_heading_prefix l = None"
  proof (cases "read_heading_prefix l")
    case (Some p)
    with assms(1) l obtain h where
      "updateHeading (pc\<lparr>keywordsAllowed := True\<rparr>) h c = Inr (c', pc')"
      by (auto simp: ProcessComment_call_def split: sum.splits)
    from updateHeading_verdict[OF this] e cur show ?thesis by simp
  qed simp
  have nk: "read_kwords_prefix l = None"
  proof (cases "read_kwords_prefix l")
    case (Some p)
    with assms(1) l nh w cur show ?thesis
      by (auto simp: ProcessComment_call_def updateKeywords_eq split: sum.splits if_splits)
  qed simp
  from assms(1) l nh nk r show ?thesis
    by (auto simp: ProcessComment_call_closing)
qed

lemma scan_file_Normal:
  assumes step: "\<And>pc c c1 pc1. I pc \<Longrightarrow> ProcessComment_call pc c = Inr (c1, pc1) \<Longrightarrow> I pc1"
  shows "scanner_inv nc \<Longrightarrow> I pc \<Longrightarrow> scan_file fn pc nc err = Some (Normal (r, pc', err')) \<Longrightarrow>
         I pc' \<and> \<not> keywordsAllowed pc' \<and> c_heading r = heading pc'
         \<and> c_keywords r = keywordsToString pc' \<and> c_error r = [] \<and> c_warning r = []"
proof (induction "length (file_pointer nc)" arbitrary: nc pc err rule: less_induct)
  case less
  have "call nc \<noteq> Inl RuntimeError"
  proof
    assume "call nc = Inl RuntimeError"
    with less.prems(3) show False by (subst (asm) scan_file.simps) simp
  qed
  with call_entry_outcome[OF less.prems(1)] obtain c nc1 where
    cl: "call nc = Inr (c, nc1)" and inv1: "scanner_inv nc1" and fr: "fresh_comment (lineNo nc1) c"
    by blast
  from fr obtain l where l: "c_current c = Some l" and ce: "c_error c = []" and cw: "c_warning c = []"
    by (auto simp: fresh_comment_def)
  from ProcessComment_call_total[OF l] obtain c1 pc1 where
    pc: "ProcessComment_call pc c = Inr (c1, pc1)" by blast
  have I1: "I pc1" using less.prems(2) pc by (rule step)
  have rec: "I pc' \<and> \<not> keywordsAllowed pc' \<and> c_heading r = heading pc'
         \<and> c_keywords r = keywordsToString pc' \<and> c_error r = [] \<and> c_warning r = []"
    if nd: "\<forall>r. assess_processing_result c1 \<noteq> DONE r"
      and res: "scan_file fn pc1 nc1 err1 = Some (Normal (r, pc', err'))" for err1
  proof -
    have "file_pointer nc \<noteq> []"
    proof
      assume e: "file_pointer nc = []"
      with cl have "c_current c = Some []" "fresh_comment (c_lineNo c) c"
        by (auto simp: call_entry_Nil Comment_init_def fresh_comment_def)
      with pc have "assess_processing_result c1 = DONE c1"
        by (auto simp: ProcessComment_call_closing assess_closing)
      with nd show False by simp
    qed
    with cl have "length (file_pointer nc1) < length (file_pointer nc)"
      by (rule call_entry_consumes)
    then show ?thesis using inv1 I1 res by (rule less.hyps)
  qed
  show ?case
  proof (cases "assess_processing_result c1")
    case (NOT_DONE x)
    with less.prems(3) cl pc have "scan_file fn pc1 nc1 err = Some (Normal (r, pc', err'))"
      by (subst (asm) scan_file.simps) simp
    with NOT_DONE show ?thesis by (intro rec) auto
  next
    case (DONE x)
    with less.prems(3) cl pc have eq: "x = r" "pc1 = pc'"
      by (subst (asm) scan_file.simps, simp)+
    from ProcessComment_call_DONE[OF pc ce cw DONE] eq I1 DONE show ?thesis
      by (auto simp: assess_processing_result_def Let_def split: if_splits)
  next
    case (WARNING m)
    with less.prems(3) cl pc have
      "scan_file fn pc1 nc1 (err @ handle_warning m fn) = Some (Normal (r, pc', err'))"
      by (subst (asm) scan_file.simps) simp
    with WARNING show ?thesis by (intro rec) auto
  next
    case (ERROR m)
    with less.prems(3) cl pc show ?thesis
      by (subst (asm) scan_file.simps) simp
  qed
qed

lemma isspace_space [simp]: "isspace CHR '' ''"
  by (simp add: isspace_def)

lemma str_rstrip_append:
  "str_rstrip (xs @ ys) = (if \<forall>c\<in>set ys. isspace c then str_rstrip xs else xs @ str_rstrip ys)"
  by (simp add: str_rstrip_def dropWhile_append)

lemma str_rstrip_append_nonspace:
  "x \<in> set ys \<Longrightarrow> \<not> isspace x \<Longrightarrow> str_rstrip (xs @ ys) = xs @ str_rstrip ys"
  by (simp add: str_rstrip_def)

lemma str_lstrip_append:
  "str_lstrip (xs @ ys) = (if \<forall>c\<in>set xs. isspace c then str_lstrip ys else str_lstrip xs @ ys)"
  by (simp add: str_lstrip_def dropWhile_append)

lemma dropWhile_spaces [simp]:
  "dropWhile isspace (replicate n CHR '' '' @ b) = dropWhile isspace b"
  by (induction n) simp_all

lemma re_sub_spaces_run:
  "re_sub_spaces (x @ replicate (Suc m) CHR '' '' @ y) = re_sub_spaces (x @ CHR '' '' # y)"
proof (induction x rule: re_sub_spaces.induct)
  case 1
  show ?case by simp
next
  case (2 c cs)
  show ?case
  proof (cases "isspace c")
    case True
    show ?thesis
    proof (cases "\<forall>d\<in>set cs. isspace d")
      case all: True
      then have "dropWhile isspace (cs @ z) = dropWhile isspace z" for z
        by (simp add: dropWhile_append)
      then show ?thesis using True by (simp del: replicate_Suc)
    next
      case False
      then have "dropWhile isspace (cs @ z) = dropWhile isspace cs @ z" for z
        by auto
      then show ?thesis using True 2(1)
        by (simp del: replicate_Suc)
    qed
  next
    case False
    then show ?thesis using 2(2) by (simp del: replicate_Suc)
  qed
qed

lemma normalise_text_run:
  "normalise_text (a @ replicate (Suc m) CHR '' '' @ b) = normalise_text (a @ CHR '' '' # b)"
proof -
  let ?sp = "replicate (Suc m) CHR '' ''"
  have sp: "\<forall>c\<in>set ?sp. isspace c" by simp
  show ?thesis
  proof (cases "\<forall>c\<in>set a. isspace c")
    case True
    then have "str_lstrip (a @ ?sp @ b) = str_lstrip b" "str_lstrip (a @ CHR '' '' # b) = str_lstrip b"
      by (simp_all add: str_lstrip_def del: replicate_Suc)
    then show ?thesis by (simp only: normalise_text_def str_strip_def)
  next
    case False
    then have "str_lstrip (a @ z) = str_lstrip a @ z" for z
      by (auto simp: str_lstrip_def)
    then have l: "str_lstrip (a @ ?sp @ b) = str_lstrip a @ ?sp @ b"
      "str_lstrip (a @ CHR '' '' # b) = str_lstrip a @ CHR '' '' # b"
      by blast+
    show ?thesis
    proof (cases "\<forall>c\<in>set b. isspace c")
      case True
      then have "str_rstrip (str_lstrip a @ ?sp @ b) = str_rstrip (str_lstrip a)"
        "str_rstrip (str_lstrip a @ CHR '' '' # b) = str_rstrip (str_lstrip a)"
        by (simp_all add: str_rstrip_append del: replicate_Suc)
      then show ?thesis using l by (simp only: normalise_text_def str_strip_def)
    next
      case nb: False
      then obtain x where x: "x \<in> set b" "\<not> isspace x" by auto
      have "str_rstrip (str_lstrip a @ ?sp @ b) = str_lstrip a @ ?sp @ str_rstrip b"
        "str_rstrip (str_lstrip a @ CHR '' '' # b) = str_lstrip a @ CHR '' '' # str_rstrip b"
        using str_rstrip_append_nonspace[OF x, of "str_lstrip a @ ?sp"]
          str_rstrip_append_nonspace[OF x, of "str_lstrip a @ '' ''"]
        by (simp_all del: replicate_Suc)
      then show ?thesis using l
        by (simp only: normalise_text_def str_strip_def re_sub_spaces_run)
    qed
  qed
qed

lemma read_kwords_not_heading: "read_kwords_prefix l = Some p \<Longrightarrow> read_heading_prefix l = None"
  by (auto simp: read_kwords_prefix_def read_heading_prefix_def heading_not_kwords
           split: option.splits if_splits)

lemma ProcessComment_call_keywords:
  assumes "read_kwords_prefix l = Some p" "keywordsAllowed pc" "c_current c = Some l"
  shows "ProcessComment_call pc c =
           Inr (c\<lparr>c_current := None\<rparr>,
                pc\<lparr>keywordsSet := keywordsSet pc
                       \<union> set (split_on_commas (normalise_text (drop (length p) l)))\<rparr>)"
  using assms read_kwords_not_heading[OF assms(1)] read_kwords_prefix_prefix[OF assms(1)]
  by (simp add: ProcessComment_call_def tutorialKeywords_def tail_after_prefix updateKeywords_eq)

lemma feed_keywords:
  assumes "read_kwords_prefix l = Some p" "keywordsAllowed pc"
  shows "feed pc l = pc\<lparr>keywordsSet := keywordsSet pc
                       \<union> set (split_on_commas (normalise_text (drop (length p) l)))\<rparr>"
  using ProcessComment_call_keywords[OF assms, of "Comment_init 0 (Some l)"]
  by (simp add: feed_def Comment_init_def)

lemma read_kwords_prefix_KWords: "read_kwords_prefix (''KWords:'' @ s) = Some ''KWords:''"
  by (simp add: read_kwords_prefix_def is_kwords_def isspace_def str_lower_def lower_char_def
        char_of_def bit_iff_odd)

lemma feed_KWords:
  "keywordsAllowed pc \<Longrightarrow>
   feed pc (''KWords:'' @ s) =
     pc\<lparr>keywordsSet := keywordsSet pc \<union> set (split_on_commas (normalise_text s))\<rparr>"
  using feed_keywords[OF read_kwords_prefix_KWords, of pc s] by simp

section \<open>The scenario of the two files\<close>

text \<open>
  C1. The run over the two files of the scenario: file 1 holds the lines
  \<open>## Tutorial #1: summary tut.1\<close> and \<open># KWords: kw1, kw2\<close>, file 2 the lines
  \<open>/* Tutorial #1: summary tut.1 *\<close>, \<open>* KWords: kw1, kw3  *\<close> and \<open>* KWords: kw4  */\<close>,
  each of the three after one space. The program ends with status 0 and prints the heading
  and the keywords \<open>kw1, kw3, kw4\<close>: the second line of file 1 does not match the
  continuation pattern of the mark \<open>##\<close>, closes the block of file 1, and \<open>kw2\<close> is lost.
\<close>

theorem scenario_two_files_output:
  "process
     [(''file1'', [''## Tutorial #1: summary tut.1'' @ [CHR 0x0A],
                   ''# KWords: kw1, kw2'' @ [CHR 0x0A]]),
      (''file2'', ['' /* Tutorial #1: summary tut.1 *'' @ [CHR 0x0A],
                   '' * KWords: kw1, kw3  *'' @ [CHR 0x0A],
                   '' * KWords: kw4  */'' @ [CHR 0x0A]])]
   = Some (Inr \<lparr>stdout = ''Tutorial #1: summary tut.1'' @ [CHR 0x0A]
                            @ ''Keywords: kw1, kw3, kw4'' @ [CHR 0x0A],
                   stderr = [], status = 0\<rparr>)"
  by (simp add: scan_defs agg_defs run_defs)

section \<open>The scanner and the recursion limit\<close>

lemma scanner_inv_initial: "scanner_inv (ProcessLine_init fp)"
  by (simp add: scanner_inv_def ProcessLine_init_def)

lemma scanner_states_inv: "self \<in> scanner_states fp \<Longrightarrow> scanner_inv self"
proof (induction rule: scanner_states.induct)
  case initial
  show ?case by (rule scanner_inv_initial)
next
  case (called self c self')
  from call_entry_outcome[OF called.IH] called.hyps(2) show ?case by auto
qed







section \<open>Termination\<close>

lemma scan_files_terminates:
  "\<exists>r. scan_files files res pc err = Some r \<and> (\<forall>e. r = Raised e \<longrightarrow> e = RuntimeError)"
proof (induction files arbitrary: res pc err)
  case Nil
  show ?case by simp
next
  case (Cons f files)
  obtain fn fp where f: "f = (fn, fp)" by (cases f)
  from scan_file_terminates[OF scanner_inv_initial, of fn pc fp err]
  obtain r where r: "scan_file fn pc (ProcessLine_init fp) err = Some r"
    "\<forall>e. r = Raised e \<longrightarrow> e = RuntimeError"
    by blast
  show ?case
  proof (cases r)
    case (Raised e)
    with r f show ?thesis by simp
  next
    case (Exited e st)
    with r f show ?thesis by simp
  next
    case (Normal x)
    obtain c pc1 err1 where "x = (c, pc1, err1)" by (cases x)
    with Normal r f Cons.IH[of "Some c" pc1 err1] show ?thesis by simp
  qed
qed

lemma display_metadata_raises:
  "display_metadata r io = Inl e \<Longrightarrow> e = AssertionError ''Found keywords but no tutorial heading.''"
  by (auto simp: display_metadata_def Let_def split: if_splits)

lemma process_terminates:
  "\<exists>r. process files = Some r \<and> (\<forall>e. r = Inl e \<longrightarrow> e = RuntimeError)"
proof -
  from scan_files_terminates[of files None ProcessComment_init "[]"]
  obtain r where r: "scan_files files None ProcessComment_init [] = Some r"
    "\<forall>e. r = Raised e \<longrightarrow> e = RuntimeError"
    by blast
  show ?thesis
  proof (cases r)
    case (Raised e)
    with r show ?thesis by (simp add: process_def)
  next
    case (Exited e st)
    with r show ?thesis by (simp add: process_def)
  next
    case (Normal x)
    obtain res pc err where x: "x = (res, pc, err)" by (cases x)
    show ?thesis
    proof (cases res)
      case None
      with Normal x r show ?thesis by (simp add: process_def)
    next
      case (Some c)
      show ?thesis
      proof (cases "display_metadata c ([], err)")
        case (Inl e)
        from display_metadata_raises[OF this] Inl Normal x r Some show ?thesis
          by (simp add: process_def)
      next
        case (Inr io)
        with Normal x r Some show ?thesis
          by (cases io) (simp add: process_def)
      qed
    qed
  qed
qed

lemma getFirstComment_Call_again:
  "getFirstComment d self line = Inr (Call_again k, self') \<Longrightarrow> Suc k = d"
  using getFirstComment_outcome[of d self line] by auto

lemma getComment_Call_again:
  "getComment d self line = Inr (Call_again k, self') \<Longrightarrow> k < d"
  by (cases d)
     (auto simp: getComment_def split: option.splits sum.splits if_splits
           dest: getFirstComment_Call_again)

text \<open>
  C10. \<open>__call__\<close> is a total function: its recursion is accepted with the number of
  unread lines as measure. Where \<open>__getComment\<close> ends with the call of \<open>__call__\<close>, the
  line has been consumed and fewer frames are left. A call that returns a record when
  lines are left has consumed at least one line; at the end of the file \<open>__call__\<close>
  does not call itself: it returns the record of the empty text when the three frames it
  needs are left, as they are in the call that \<open>process\<close> makes. The aggregator turns
  that record into one that is classified \<open>DONE\<close>. In a state of the scanner a call ends:
  with a record, or with \<open>RuntimeError\<close>. The loop over one file ends, and so does the
  whole run: with the two streams and a status, or with \<open>RuntimeError\<close>.
\<close>

theorem processing_terminates:
  "(\<forall>raw fp k self2. file_pointer self = raw # fp
        \<and> getComment d (self\<lparr>file_pointer := fp, lineNo := lineNo self + 1\<rparr>) (str_rstrip raw)
            = Inr (Call_again k, self2) \<longrightarrow>
        file_pointer self2 = fp \<and> k < d)
   \<and> (\<forall>c self'. ProcessLine_call d self = Inr (c, self') \<and> file_pointer self \<noteq> [] \<longrightarrow>
          length (file_pointer self') < length (file_pointer self))
   \<and> (file_pointer self = [] \<longrightarrow>
          ProcessLine_call d self =
            (if d < 3 then Inl RuntimeError
             else Inr (Comment_init (lineNo self + 1) (Some []),
                       self\<lparr>lineNo := lineNo self + 1\<rparr>)))
   \<and> (file_pointer self = [] \<longrightarrow>
          call self = Inr (Comment_init (lineNo self + 1) (Some []),
                           self\<lparr>lineNo := lineNo self + 1\<rparr>))
   \<and> (\<exists>c' pc'. ProcessComment_call pc (Comment_init n (Some [])) = Inr (c', pc')
          \<and> assess_processing_result c' = DONE c')
   \<and> (self \<in> scanner_states lines \<longrightarrow>
          call self = Inl RuntimeError \<or> (\<exists>c self'. call self = Inr (c, self')))
   \<and> (\<exists>r. scan_file fn pc (ProcessLine_init fp) err = Some r
          \<and> (\<forall>e. r = Raised e \<longrightarrow> e = RuntimeError))
   \<and> (\<exists>r. process files = Some r \<and> (\<forall>e. r = Inl e \<longrightarrow> e = RuntimeError))"
proof (intro conjI allI impI)
  fix raw fp k self2
  assume a: "file_pointer self = raw # fp
        \<and> getComment d (self\<lparr>file_pointer := fp, lineNo := lineNo self + 1\<rparr>) (str_rstrip raw)
            = Inr (Call_again k, self2)"
  then show "file_pointer self2 = fp" by (auto dest: getComment_file_pointer)
  from a show "k < d" by (auto dest: getComment_Call_again)
next
  fix c self'
  assume "ProcessLine_call d self = Inr (c, self') \<and> file_pointer self \<noteq> []"
  then show "length (file_pointer self') < length (file_pointer self)"
    by (auto intro: call_consumes)
next
  assume "file_pointer self = []"
  then show "ProcessLine_call d self =
            (if d < 3 then Inl RuntimeError
             else Inr (Comment_init (lineNo self + 1) (Some []),
                       self\<lparr>lineNo := lineNo self + 1\<rparr>))"
    by (rule call_Nil)
next
  assume "file_pointer self = []"
  then show "call self = Inr (Comment_init (lineNo self + 1) (Some []),
                           self\<lparr>lineNo := lineNo self + 1\<rparr>)"
    by (rule call_entry_Nil)
next
  have cur: "c_current (Comment_init n (Some [])) = Some []"
    by (simp add: Comment_init_def)
  show "\<exists>c' pc'. ProcessComment_call pc (Comment_init n (Some [])) = Inr (c', pc')
          \<and> assess_processing_result c' = DONE c'"
    by (simp add: ProcessComment_call_closing[OF cur] assess_closing[OF fresh_Comment_init])
next
  assume "self \<in> scanner_states lines"
  then have "scanner_inv self" by (rule scanner_states_inv)
  from call_entry_outcome[OF this]
  show "call self = Inl RuntimeError \<or> (\<exists>c self'. call self = Inr (c, self'))" by blast
next
  from scan_file_terminates[OF scanner_inv_initial, of fn pc fp err]
  show "\<exists>r. scan_file fn pc (ProcessLine_init fp) err = Some r
          \<and> (\<forall>e. r = Raised e \<longrightarrow> e = RuntimeError)" .
next
  show "\<exists>r. process files = Some r \<and> (\<forall>e. r = Inl e \<longrightarrow> e = RuntimeError)"
    by (rule process_terminates)
qed

text \<open>
  The theorem on a file whose first two lines are dropped: on the first line
  \<open>__getComment\<close> ends with the call of \<open>__call__\<close>, and one call consumes the three
  lines.
\<close>

theorem processing_terminates_witness:
  "ProcessLine_init [''#!/bin/sh'', ''##'', ''# Tutorial 1''] \<in>
     scanner_states [''#!/bin/sh'', ''##'', ''# Tutorial 1'']
   \<and> getComment 997 \<lparr>file_pointer = [''##'', ''# Tutorial 1''], lineNo = 1,
                       isSecondComment = None, borderCommentRE = None\<rparr>
        (str_rstrip ''#!/bin/sh'')
       = Inr (Call_again 995, \<lparr>file_pointer = [''##'', ''# Tutorial 1''], lineNo = 1,
                                isSecondComment = None, borderCommentRE = None\<rparr>)
   \<and> ProcessLine_call 997 (ProcessLine_init [''#!/bin/sh'', ''##'', ''# Tutorial 1''])
       = Inr (Comment_init 3 (Some ''Tutorial 1''),
              \<lparr>file_pointer = [], lineNo = 3, isSecondComment = Some (Single_mark ''#''),
                borderCommentRE = Some (Border_single ''#'')\<rparr>)
   \<and> file_pointer (ProcessLine_init [''#!/bin/sh'', ''##'', ''# Tutorial 1'']) \<noteq> []
   \<and> length (file_pointer \<lparr>file_pointer = [], lineNo = 3,
                 isSecondComment = Some (Single_mark ''#''),
                 borderCommentRE = Some (Border_single ''#'')\<rparr>)
       < length (file_pointer (ProcessLine_init [''#!/bin/sh'', ''##'', ''# Tutorial 1'']))
   \<and> (995 :: nat) < 997
   \<and> (\<exists>r. scan_file ''f'' ProcessComment_init
              (ProcessLine_init [''#!/bin/sh'', ''##'', ''# Tutorial 1'']) [] = Some r)"
proof -
  let ?fp = "[''#!/bin/sh'', ''##'', ''# Tutorial 1'']"
  have g: "getComment 997 \<lparr>file_pointer = [''##'', ''# Tutorial 1''], lineNo = 1,
                       isSecondComment = None, borderCommentRE = None\<rparr>
        (str_rstrip ''#!/bin/sh'')
       = Inr (Call_again 995, \<lparr>file_pointer = [''##'', ''# Tutorial 1''], lineNo = 1,
                                isSecondComment = None, borderCommentRE = None\<rparr>)"
    by (simp add: scan_defs)
  have c: "ProcessLine_call 997 (ProcessLine_init ?fp)
       = Inr (Comment_init 3 (Some ''Tutorial 1''),
              \<lparr>file_pointer = [], lineNo = 3, isSecondComment = Some (Single_mark ''#''),
                borderCommentRE = Some (Border_single ''#'')\<rparr>)"
    by (simp add: scan_defs)
  from processing_terminates[of "ProcessLine_init ?fp" 997 ProcessComment_init 0 ?fp "''f''"
         ?fp "[]" "[]"]
    g c scanner_states.initial[of ?fp]
  show ?thesis by (auto simp: ProcessLine_init_def)
qed

section \<open>A keyword line before any heading\<close>

text \<open>
  C6. A keyword line that the aggregator consumes while keywords are not allowed leaves
  the aggregator as it was (the keyword set, the gate and the heading), comes back with
  one warning and is classified \<open>WARNING\<close>, not \<open>DONE\<close>: the loop writes the warning once
  and goes on with the next record of the scanner.
\<close>

theorem keywords_before_heading:
  assumes "read_kwords_prefix l = Some p" "\<not> keywordsAllowed pc"
  shows "(let c = Comment_init n (Some l);
              w = ''Found keywords definition in file with no Tutorial line: '' @ [CHR 0x27] @ l @ [CHR 0x27]
          in ProcessComment_call pc c = Inr (c\<lparr>c_warning := w\<rparr>, pc)
             \<and> assess_processing_result (c\<lparr>c_warning := w\<rparr>) = WARNING w
             \<and> (\<forall>fn nc nc1 err. call nc = Inr (c, nc1) \<longrightarrow>
                   scan_file fn pc nc err = scan_file fn pc nc1 (err @ handle_warning w fn)))"
proof -
  let ?c = "Comment_init n (Some l)"
  let ?w = "''Found keywords definition in file with no Tutorial line: '' @ [CHR 0x27] @ l @ [CHR 0x27]"
  have pc: "ProcessComment_call pc ?c = Inr (?c\<lparr>c_warning := ?w\<rparr>, pc)"
    using assms read_kwords_not_heading[OF assms(1)]
    by (simp add: ProcessComment_call_def Comment_init_def)
  have a: "assess_processing_result (?c\<lparr>c_warning := ?w\<rparr>) = WARNING ?w"
    by (simp add: assess_processing_result_def Comment_init_def)
  have "scan_file fn pc nc err = scan_file fn pc nc1 (err @ handle_warning ?w fn)"
    if "call nc = Inr (?c, nc1)" for fn nc nc1 err
    using that pc a by (subst scan_file.simps) simp
  with pc a show ?thesis by (simp add: Let_def)
qed

theorem keywords_before_heading_witness:
  "read_kwords_prefix ''KWords: a'' = Some ''KWords:''
   \<and> \<not> keywordsAllowed ProcessComment_init
   \<and> ProcessComment_call ProcessComment_init (Comment_init 1 (Some ''KWords: a''))
       = Inr ((Comment_init 1 (Some ''KWords: a''))
                \<lparr>c_warning := ''Found keywords definition in file with no Tutorial line: ''
                               @ [CHR 0x27] @ ''KWords: a'' @ [CHR 0x27]\<rparr>,
              ProcessComment_init)
   \<and> call (ProcessLine_init [''# KWords: a''])
       = Inr (Comment_init 1 (Some ''KWords: a''),
              \<lparr>file_pointer = [], lineNo = 1, isSecondComment = Some (Single_mark ''#''),
                borderCommentRE = Some (Border_single ''#'')\<rparr>)
   \<and> scan_file ''f'' ProcessComment_init (ProcessLine_init [''# KWords: a'']) []
       = scan_file ''f'' ProcessComment_init
           \<lparr>file_pointer = [], lineNo = 1, isSecondComment = Some (Single_mark ''#''),
             borderCommentRE = Some (Border_single ''#'')\<rparr>
           (handle_warning (''Found keywords definition in file with no Tutorial line: ''
                            @ [CHR 0x27] @ ''KWords: a'' @ [CHR 0x27]) ''f'')"
proof -
  have k: "read_kwords_prefix ''KWords: a'' = Some ''KWords:''"
    using read_kwords_prefix_KWords[of "'' a''"] by simp
  have g: "\<not> keywordsAllowed ProcessComment_init"
    by (simp add: ProcessComment_init_def)
  have c: "call (ProcessLine_init [''# KWords: a''])
       = Inr (Comment_init 1 (Some ''KWords: a''),
              \<lparr>file_pointer = [], lineNo = 1, isSecondComment = Some (Single_mark ''#''),
                borderCommentRE = Some (Border_single ''#'')\<rparr>)"
    by (simp add: scan_defs)
  from keywords_before_heading[OF k g, of 1] k g c show ?thesis
    by (simp add: Let_def)
qed

section \<open>The aggregator between two files\<close>

lemma scan_files_Normal:
  assumes step: "\<And>pc c c1 pc1. I pc \<Longrightarrow> ProcessComment_call pc c = Inr (c1, pc1) \<Longrightarrow> I pc1"
  shows "I pc \<Longrightarrow> \<not> keywordsAllowed pc \<Longrightarrow>
         (\<forall>r. res = Some r \<longrightarrow> c_heading r = heading pc \<and> c_keywords r = keywordsToString pc) \<Longrightarrow>
         scan_files files res pc err = Some (Normal (res', pc', err')) \<Longrightarrow>
         I pc' \<and> \<not> keywordsAllowed pc'
         \<and> (\<forall>r. res' = Some r \<longrightarrow> c_heading r = heading pc' \<and> c_keywords r = keywordsToString pc')"
proof (induction files arbitrary: res pc err)
  case Nil
  then show ?case by simp
next
  case (Cons f files)
  obtain fn fp where f: "f = (fn, fp)" by (cases f)
  from Cons.prems(4) f have
    all: "scan_files ((fn, fp) # files) res pc err = Some (Normal (res', pc', err'))"
    by simp
  obtain r pc1 err1 where
    sf: "scan_file fn pc (ProcessLine_init fp) err = Some (Normal (r, pc1, err1))"
    and rest: "scan_files files (Some r) pc1 err1 = Some (Normal (res', pc', err'))"
  proof (cases "scan_file fn pc (ProcessLine_init fp) err")
    case None
    with all show ?thesis by simp
  next
    case (Some x)
    show ?thesis
    proof (cases x)
      case (Raised e)
      with Some all show ?thesis by simp
    next
      case (Exited e st)
      with Some all show ?thesis by simp
    next
      case (Normal y)
      obtain r pc1 err1 where "y = (r, pc1, err1)" by (cases y)
      with Normal Some all that show ?thesis by simp
    qed
  qed
  from scan_file_Normal[of I, OF step scanner_inv_initial Cons.prems(1) sf]
  have 1: "I pc1" and 2: "\<not> keywordsAllowed pc1"
    and 3: "\<forall>x. Some r = Some x \<longrightarrow> c_heading x = heading pc1 \<and> c_keywords x = keywordsToString pc1"
    by auto
  show ?case by (rule Cons.IH[OF 1 2 3 rest])
qed

lemma scan_files_boundary:
  assumes "scan_files files None ProcessComment_init [] = Some (Normal (res, pc, err))"
  shows "pc \<in> aggregator_states \<and> \<not> keywordsAllowed pc
         \<and> (\<forall>r. res = Some r \<longrightarrow> c_heading r = heading pc \<and> c_keywords r = keywordsToString pc)"
proof (rule scan_files_Normal[where I = "\<lambda>pc. pc \<in> aggregator_states", OF _ _ _ _ assms])
  show "ProcessComment_init \<in> aggregator_states" by (rule aggregator_states.initial)
  show "\<not> keywordsAllowed ProcessComment_init" by (simp add: ProcessComment_init_def)
  show "\<forall>r. None = Some r \<longrightarrow>
          c_heading r = heading ProcessComment_init \<and> c_keywords r = keywordsToString ProcessComment_init"
    by simp
qed (rule aggregator_states.called)




section \<open>Keywords never come without a heading\<close>

lemma aggregator_states_inv: "pc \<in> aggregator_states \<Longrightarrow> aggregator_inv pc"
proof (induction rule: aggregator_states.induct)
  case initial
  show ?case by (simp add: aggregator_inv_def ProcessComment_init_def)
next
  case (called pc c c' pc')
  from called.IH called.hyps(2) show ?case by (rule ProcessComment_call_inv)
qed

lemma keywordsToString_empty: "keywordsSet pc = {} \<Longrightarrow> keywordsToString pc = []"
  by (simp add: keywordsToString_def)

lemma snapshot_displays:
  assumes "aggregator_inv pc" "c_heading r = heading pc" "c_keywords r = keywordsToString pc"
  shows "(c_keywords r \<noteq> [] \<longrightarrow> c_heading r \<noteq> []) \<and> (\<exists>io'. display_metadata r io = Inr io')"
proof -
  have "c_keywords r \<noteq> [] \<longrightarrow> c_heading r \<noteq> []"
    using assms keywordsToString_empty[of pc] by (auto simp: aggregator_inv_def)
  then show ?thesis by (auto simp: display_metadata_def Let_def)
qed

text \<open>
  C9. In every state of the aggregator, a keyword set that is not empty comes with a
  stored heading that is not empty, and so does a gate that is open. Every record with
  which the loop over a file ends, started in such a state, has a heading when it has
  keywords, and \<open>display_metadata\<close> does not raise on it; this holds for the record that
  \<open>process\<close> hands to \<open>display_metadata\<close> after any files.
\<close>

theorem keywords_imply_heading:
  assumes "pc \<in> aggregator_states"
  shows "(keywordsSet pc \<noteq> {} \<longrightarrow> heading pc \<noteq> [])
         \<and> (keywordsAllowed pc \<longrightarrow> heading pc \<noteq> [])
         \<and> (\<forall>fn fp err r pc' err' io.
               scan_file fn pc (ProcessLine_init fp) err = Some (Normal (r, pc', err')) \<longrightarrow>
               pc' \<in> aggregator_states \<and> (c_keywords r \<noteq> [] \<longrightarrow> c_heading r \<noteq> [])
               \<and> (\<exists>io'. display_metadata r io = Inr io'))
         \<and> (\<forall>files r pc' err' io.
               scan_files files None ProcessComment_init [] = Some (Normal (Some r, pc', err')) \<longrightarrow>
               (c_keywords r \<noteq> [] \<longrightarrow> c_heading r \<noteq> [])
               \<and> (\<exists>io'. display_metadata r io = Inr io'))"
proof (intro conjI allI impI)
  from aggregator_states_inv[OF assms]
  show "keywordsSet pc \<noteq> {} \<Longrightarrow> heading pc \<noteq> []" and "keywordsAllowed pc \<Longrightarrow> heading pc \<noteq> []"
    by (auto simp: aggregator_inv_def)
next
  fix fn fp err r pc' err' io
  assume sf: "scan_file fn pc (ProcessLine_init fp) err = Some (Normal (r, pc', err'))"
  from scan_file_Normal[of "\<lambda>pc. pc \<in> aggregator_states", OF _ scanner_inv_initial assms sf]
  have st: "pc' \<in> aggregator_states" and h: "c_heading r = heading pc'"
    and k: "c_keywords r = keywordsToString pc'"
    by (auto intro: aggregator_states.called)
  from st show "pc' \<in> aggregator_states" .
  from snapshot_displays[OF aggregator_states_inv[OF st] h k, of io]
  show "c_keywords r \<noteq> [] \<Longrightarrow> c_heading r \<noteq> []" and "\<exists>io'. display_metadata r io = Inr io'"
    by auto
next
  fix files r pc' err' io
  assume "scan_files files None ProcessComment_init [] = Some (Normal (Some r, pc', err'))"
  from scan_files_boundary[OF this]
  have st: "pc' \<in> aggregator_states" and h: "c_heading r = heading pc'"
    and k: "c_keywords r = keywordsToString pc'"
    by auto
  from snapshot_displays[OF aggregator_states_inv[OF st] h k, of io]
  show "c_keywords r \<noteq> [] \<Longrightarrow> c_heading r \<noteq> []" and "\<exists>io'. display_metadata r io = Inr io'"
    by auto
qed

text \<open>
  The theorem in the state after a heading line and a keyword line, and on the record of
  the file of these two lines.
\<close>

theorem keywords_imply_heading_witness:
  "\<lparr>heading = ''Tutorial 1'', headingLC = ''tutorial 1'', keywordsSet = {''a''},
     keywordsAllowed = True\<rparr> \<in> aggregator_states
   \<and> keywordsSet \<lparr>heading = ''Tutorial 1'', headingLC = ''tutorial 1'', keywordsSet = {''a''},
                   keywordsAllowed = True\<rparr> \<noteq> {}
   \<and> heading \<lparr>heading = ''Tutorial 1'', headingLC = ''tutorial 1'', keywordsSet = {''a''},
                 keywordsAllowed = True\<rparr> \<noteq> []
   \<and> scan_files [(''f'', [''# Tutorial 1'', ''# KWords: a''])] None ProcessComment_init []
       = Some (Normal (Some \<lparr>c_lineNo = 3, c_current = Some [], c_error = [], c_warning = [],
                              c_heading = ''Tutorial 1'', c_keywords = ''a''\<rparr>,
                       \<lparr>heading = ''Tutorial 1'', headingLC = ''tutorial 1'',
                          keywordsSet = {''a''}, keywordsAllowed = False\<rparr>, []))
   \<and> (\<exists>io'. display_metadata \<lparr>c_lineNo = 3, c_current = Some [], c_error = [], c_warning = [],
                                c_heading = ''Tutorial 1'', c_keywords = ''a''\<rparr> ([], [])
              = Inr io')"
proof -
  let ?pa = "\<lparr>heading = ''Tutorial 1'', headingLC = ''tutorial 1'', keywordsSet = {},
     keywordsAllowed = True\<rparr>"
  let ?pc = "\<lparr>heading = ''Tutorial 1'', headingLC = ''tutorial 1'', keywordsSet = {''a''},
     keywordsAllowed = True\<rparr>"
  have "ProcessComment_call ProcessComment_init (Comment_init 1 (Some ''Tutorial 1''))
          = Inr ((Comment_init 1 (Some ''Tutorial 1''))\<lparr>c_current := None\<rparr>, ?pa)"
    by (simp add: agg_defs scan_defs)
  with aggregator_states.initial have 0: "?pa \<in> aggregator_states"
    by (rule aggregator_states.called)
  have "ProcessComment_call ?pa (Comment_init 2 (Some ''KWords: a''))
          = Inr ((Comment_init 2 (Some ''KWords: a''))\<lparr>c_current := None\<rparr>, ?pc)"
    by (simp add: agg_defs scan_defs)
  with 0 have st: "?pc \<in> aggregator_states"
    by (rule aggregator_states.called)
  have run: "scan_files [(''f'', [''# Tutorial 1'', ''# KWords: a''])] None ProcessComment_init []
       = Some (Normal (Some \<lparr>c_lineNo = 3, c_current = Some [], c_error = [], c_warning = [],
                              c_heading = ''Tutorial 1'', c_keywords = ''a''\<rparr>,
                       \<lparr>heading = ''Tutorial 1'', headingLC = ''tutorial 1'',
                          keywordsSet = {''a''}, keywordsAllowed = False\<rparr>, []))"
    by (simp add: scan_defs agg_defs run_defs)
  have "\<exists>io'. display_metadata \<lparr>c_lineNo = 3, c_current = Some [], c_error = [], c_warning = [],
                                c_heading = ''Tutorial 1'', c_keywords = ''a''\<rparr> ([], [])
              = Inr io'"
    using keywords_imply_heading[OF st] run by blast
  with st run show ?thesis by simp
qed

section \<open>The messages on the standard error stream\<close>

text \<open>
  C4. Two runs: a keyword line before any heading in the file \<open>a.txt\<close>, and two files
  whose headings cannot be reconciled. The warning of the first run is
  \<open>Warning:a.txt:\<close> followed by the message, and the error of the second is \<open>b.txt:\<close>
  followed by the message: \<open>addWarning\<close> and \<open>addError\<close> store the message as it is, and
  neither line holds \<open>Line 1:\<close>, the number of the comment line.
\<close>

theorem diagnostics_without_line_number:
  "process [(''a.txt'', [''# KWords: k1''])]
     = Some (Inr \<lparr>stdout = [],
                  stderr = ''Warning:a.txt:Found keywords definition in file with no Tutorial line: ''
                           @ [CHR 0x27] @ ''KWords: k1'' @ [CHR 0x27] @ [CHR 0x0A],
                  status = 0\<rparr>)
   \<and> process [(''a.txt'', [''# Tutorial A: x'']), (''b.txt'', [''# Tutorial B: y''])]
     = Some (Inr \<lparr>stdout = [],
                  stderr = ''b.txt:heading '' @ [CHR 0x27] @ ''Tutorial B: y'' @ [CHR 0x27]
                           @ '' different from previous files' heading ''
                           @ [CHR 0x27] @ ''Tutorial A: x'' @ [CHR 0x27] @ [CHR 0x0A, CHR 0x0A]
                           @ ''Processing aborted.'' @ [CHR 0x0A],
                  status = 1\<rparr>)"
  by (simp add: scan_defs agg_defs run_defs)

section \<open>The keyword set\<close>

lemma feed_gate:
  assumes "read_kwords_prefix l = Some p" "keywordsAllowed pc"
  shows "keywordsAllowed (feed pc l)"
  by (simp add: feed_keywords[OF assms] assms(2))

lemma feed_twice:
  assumes "read_kwords_prefix l = Some p" "keywordsAllowed pc"
  shows "feed (feed pc l) l = feed pc l"
proof -
  have "feed (feed pc l) l
        = (feed pc l)\<lparr>keywordsSet := keywordsSet (feed pc l)
             \<union> set (split_on_commas (normalise_text (drop (length p) l)))\<rparr>"
    by (rule feed_keywords[OF assms(1) feed_gate[OF assms]])
  then show ?thesis by (simp add: feed_keywords[OF assms])
qed

lemma feed_commute:
  assumes "read_kwords_prefix l1 = Some p1" "read_kwords_prefix l2 = Some p2" "keywordsAllowed pc"
  shows "feed (feed pc l1) l2 = feed (feed pc l2) l1"
proof -
  have 1: "feed (feed pc l1) l2
        = (feed pc l1)\<lparr>keywordsSet := keywordsSet (feed pc l1)
             \<union> set (split_on_commas (normalise_text (drop (length p2) l2)))\<rparr>"
    by (rule feed_keywords[OF assms(2) feed_gate[OF assms(1,3)]])
  have 2: "feed (feed pc l2) l1
        = (feed pc l2)\<lparr>keywordsSet := keywordsSet (feed pc l2)
             \<union> set (split_on_commas (normalise_text (drop (length p1) l1)))\<rparr>"
    by (rule feed_keywords[OF assms(1) feed_gate[OF assms(2,3)]])
  show ?thesis
    unfolding 1 2
    by (simp add: feed_keywords[OF assms(1,3)] feed_keywords[OF assms(2,3)] Un_commute Un_left_commute)
qed

lemma feed_KWords_run:
  assumes "keywordsAllowed pc"
  shows "feed pc (''KWords:'' @ a @ replicate (Suc m) CHR '' '' @ b)
         = feed pc (''KWords:'' @ a @ CHR '' '' # b)"
  unfolding feed_KWords[OF assms] by (simp only: normalise_text_run)

lemma split_k1_k2: "split_on_commas (normalise_text '' k1, k2'') = [''k1'', ''k2'']"
  by (simp add: split_on_commas_def normalise_text_def str_strip_def str_lstrip_def
        str_rstrip_def isspace_def)

lemma split_k2_k3: "split_on_commas (normalise_text '' k2, k3'') = [''k2'', ''k3'']"
  by (simp add: split_on_commas_def normalise_text_def str_strip_def str_lstrip_def
        str_rstrip_def isspace_def)

lemma feed_k1_k2:
  assumes "keywordsAllowed pc"
  shows "feed pc (''KWords: k1,'' @ replicate (Suc m) CHR '' '' @ ''k2'')
         = pc\<lparr>keywordsSet := keywordsSet pc \<union> {''k1'', ''k2''}\<rparr>"
proof -
  have "feed pc (''KWords:'' @ '' k1,'' @ replicate (Suc m) CHR '' '' @ ''k2'')
        = feed pc (''KWords:'' @ '' k1,'' @ CHR '' '' # ''k2'')"
    by (rule feed_KWords_run[OF assms])
  also have "\<dots> = pc\<lparr>keywordsSet := keywordsSet pc
                \<union> set (split_on_commas (normalise_text ('' k1,'' @ CHR '' '' # ''k2'')))\<rparr>"
    by (rule feed_KWords[OF assms])
  also have "'' k1,'' @ CHR '' '' # ''k2'' = '' k1, k2''" by simp
  finally show ?thesis by (simp add: split_k1_k2 del: replicate_Suc)
qed

lemma feed_k2_k3:
  assumes "keywordsAllowed pc"
  shows "feed pc (''KWords: k2,'' @ replicate (Suc n) CHR '' '' @ ''k3'')
         = pc\<lparr>keywordsSet := keywordsSet pc \<union> {''k2'', ''k3''}\<rparr>"
proof -
  have "feed pc (''KWords:'' @ '' k2,'' @ replicate (Suc n) CHR '' '' @ ''k3'')
        = feed pc (''KWords:'' @ '' k2,'' @ CHR '' '' # ''k3'')"
    by (rule feed_KWords_run[OF assms])
  also have "\<dots> = pc\<lparr>keywordsSet := keywordsSet pc
                \<union> set (split_on_commas (normalise_text ('' k2,'' @ CHR '' '' # ''k3'')))\<rparr>"
    by (rule feed_KWords[OF assms])
  also have "'' k2,'' @ CHR '' '' # ''k3'' = '' k2, k3''" by simp
  finally show ?thesis by (simp add: split_k2_k3 del: replicate_Suc)
qed

lemma feed_finite: "finite (keywordsSet pc) \<Longrightarrow> finite (keywordsSet (feed pc l))"
proof -
  assume f: "finite (keywordsSet pc)"
  have cur: "c_current (Comment_init 0 (Some l)) = Some l" by (simp add: Comment_init_def)
  from ProcessComment_call_total[OF cur, of pc] obtain c' pc' where
    c: "ProcessComment_call pc (Comment_init 0 (Some l)) = Inr (c', pc')" by blast
  have "finite (keywordsSet pc')"
  proof (cases "read_heading_prefix l")
    case (Some p)
    with c cur obtain h where "updateHeading (pc\<lparr>keywordsAllowed := True\<rparr>) h (Comment_init 0 (Some l)) = Inr (c', pc')"
      by (auto simp: ProcessComment_call_def split: sum.splits)
    from updateHeading_frame[OF this] f show ?thesis by simp
  next
    case None
    show ?thesis
    proof (cases "read_kwords_prefix l")
      case n: None
      with c cur None f show ?thesis by (auto simp: ProcessComment_call_closing)
    next
      case (Some p)
      with c cur None f show ?thesis
        by (auto simp: ProcessComment_call_def updateKeywords_eq split: if_splits sum.splits)
    qed
  qed
  with c show ?thesis by (simp add: feed_def)
qed


text \<open>
  C5. While keywords are allowed: a keyword line fed twice leaves the aggregator as after
  once; two keyword lines fed in either order leave the same aggregator; a run of spaces
  anywhere in the keywords of a line counts as one space; the lines of \<open>k1, k2\<close> and
  \<open>k2, k3\<close>, with any run of spaces after the comma, fed to an empty keyword set in either
  order, are rendered \<open>k1, k2, k3\<close>; and the rendering of a keyword set joins with comma
  and space the list of its elements without repetition, in the order of the strings.
\<close>

theorem keyword_set_canonical:
  assumes "keywordsAllowed pc"
  shows "(\<forall>l p. read_kwords_prefix l = Some p \<longrightarrow> feed (feed pc l) l = feed pc l)
         \<and> (\<forall>l1 p1 l2 p2. read_kwords_prefix l1 = Some p1 \<and> read_kwords_prefix l2 = Some p2 \<longrightarrow>
               feed (feed pc l1) l2 = feed (feed pc l2) l1)
         \<and> (\<forall>a b m. feed pc (''KWords:'' @ a @ replicate (Suc m) CHR '' '' @ b)
                      = feed pc (''KWords:'' @ a @ CHR '' '' # b))
         \<and> (keywordsSet pc = {} \<longrightarrow>
              (\<forall>m n. keywordsToString
                        (feed (feed pc (''KWords: k1,'' @ replicate (Suc m) CHR '' '' @ ''k2''))
                              (''KWords: k2,'' @ replicate (Suc n) CHR '' '' @ ''k3''))
                      = ''k1, k2, k3''
                    \<and> keywordsToString
                        (feed (feed pc (''KWords: k2,'' @ replicate (Suc n) CHR '' '' @ ''k3''))
                              (''KWords: k1,'' @ replicate (Suc m) CHR '' '' @ ''k2''))
                      = ''k1, k2, k3''))
         \<and> (finite (keywordsSet pc) \<longrightarrow>
              (\<forall>l. \<exists>ks. keywordsToString (feed pc l) = str_join '', '' ks
                       \<and> sorted ks \<and> distinct ks \<and> set ks = keywordsSet (feed pc l)))"
proof (intro conjI allI impI)
  fix l p
  assume "read_kwords_prefix l = Some p"
  then show "feed (feed pc l) l = feed pc l" using assms by (rule feed_twice)
next
  fix l1 p1 l2 p2
  assume "read_kwords_prefix l1 = Some p1 \<and> read_kwords_prefix l2 = Some p2"
  then show "feed (feed pc l1) l2 = feed (feed pc l2) l1"
    using assms by (auto intro: feed_commute)
next
  fix a b m
  show "feed pc (''KWords:'' @ a @ replicate (Suc m) CHR '' '' @ b)
        = feed pc (''KWords:'' @ a @ CHR '' '' # b)"
    using assms by (rule feed_KWords_run)
next
  fix m n
  assume e: "keywordsSet pc = {}"
  let ?a = "pc\<lparr>keywordsSet := keywordsSet pc \<union> {''k1'', ''k2''}\<rparr>"
  let ?b = "pc\<lparr>keywordsSet := keywordsSet pc \<union> {''k2'', ''k3''}\<rparr>"
  have ga: "keywordsAllowed ?a" and gb: "keywordsAllowed ?b" using assms by simp_all
  have r: "keywordsToString x = ''k1, k2, k3''" if "keywordsSet x = {''k1'', ''k2'', ''k3''}" for x
    using that by (simp add: keywordsToString_def)
  have "keywordsSet (feed (feed pc (''KWords: k1,'' @ replicate (Suc m) CHR '' '' @ ''k2''))
                (''KWords: k2,'' @ replicate (Suc n) CHR '' '' @ ''k3''))
        = {''k1'', ''k2'', ''k3''}"
    unfolding feed_k1_k2[OF assms] feed_k2_k3[OF ga] using e by auto
  then show "keywordsToString
          (feed (feed pc (''KWords: k1,'' @ replicate (Suc m) CHR '' '' @ ''k2''))
                (''KWords: k2,'' @ replicate (Suc n) CHR '' '' @ ''k3''))
        = ''k1, k2, k3''"
    by (rule r)
  have "keywordsSet (feed (feed pc (''KWords: k2,'' @ replicate (Suc n) CHR '' '' @ ''k3''))
                (''KWords: k1,'' @ replicate (Suc m) CHR '' '' @ ''k2''))
        = {''k1'', ''k2'', ''k3''}"
    unfolding feed_k2_k3[OF assms] feed_k1_k2[OF gb] using e by auto
  then show "keywordsToString
          (feed (feed pc (''KWords: k2,'' @ replicate (Suc n) CHR '' '' @ ''k3''))
                (''KWords: k1,'' @ replicate (Suc m) CHR '' '' @ ''k2''))
        = ''k1, k2, k3''"
    by (rule r)
next
  fix l
  assume "finite (keywordsSet pc)"
  then have f: "finite (keywordsSet (feed pc l))" by (rule feed_finite)
  show "\<exists>ks. keywordsToString (feed pc l) = str_join '', '' ks
           \<and> sorted ks \<and> distinct ks \<and> set ks = keywordsSet (feed pc l)"
    using f by (intro exI[of _ "sorted_list_of_set (keywordsSet (feed pc l))"])
               (simp add: keywordsToString_def)
qed

text \<open>
  The theorem in the state after the heading \<open>Tutorial 1\<close>, on the lines of the property
  with three spaces after the first comma and one after the second.
\<close>

theorem keyword_set_canonical_witness:
  "keywordsAllowed \<lparr>heading = ''Tutorial 1'', headingLC = ''tutorial 1'', keywordsSet = {},
                     keywordsAllowed = True\<rparr>
   \<and> read_kwords_prefix ''KWords: k1,   k2'' = Some ''KWords:''
   \<and> read_kwords_prefix ''KWords: k2, k3'' = Some ''KWords:''
   \<and> feed (feed \<lparr>heading = ''Tutorial 1'', headingLC = ''tutorial 1'', keywordsSet = {},
                   keywordsAllowed = True\<rparr> ''KWords: k1,   k2'') ''KWords: k1,   k2''
       = feed \<lparr>heading = ''Tutorial 1'', headingLC = ''tutorial 1'', keywordsSet = {},
               keywordsAllowed = True\<rparr> ''KWords: k1,   k2''
   \<and> keywordsToString
         (feed (feed \<lparr>heading = ''Tutorial 1'', headingLC = ''tutorial 1'', keywordsSet = {},
                       keywordsAllowed = True\<rparr> ''KWords: k1,   k2'') ''KWords: k2, k3'')
       = ''k1, k2, k3''
   \<and> keywordsToString
         (feed (feed \<lparr>heading = ''Tutorial 1'', headingLC = ''tutorial 1'', keywordsSet = {},
                       keywordsAllowed = True\<rparr> ''KWords: k2, k3'') ''KWords: k1,   k2'')
       = ''k1, k2, k3''"
proof -
  let ?pc = "\<lparr>heading = ''Tutorial 1'', headingLC = ''tutorial 1'', keywordsSet = {},
                     keywordsAllowed = True\<rparr>"
  have g: "keywordsAllowed ?pc" by simp
  have k1: "read_kwords_prefix ''KWords: k1,   k2'' = Some ''KWords:''"
    using read_kwords_prefix_KWords[of "'' k1,   k2''"] by simp
  have k2: "read_kwords_prefix ''KWords: k2, k3'' = Some ''KWords:''"
    using read_kwords_prefix_KWords[of "'' k2, k3''"] by simp
  note t = keyword_set_canonical[OF g]
  from t k1 have twice: "feed (feed ?pc ''KWords: k1,   k2'') ''KWords: k1,   k2''
                         = feed ?pc ''KWords: k1,   k2''"
    by blast
  have e: "keywordsSet ?pc = {}" by simp
  from t e have "keywordsToString
          (feed (feed ?pc (''KWords: k1,'' @ replicate (Suc (Suc (Suc 0))) CHR '' '' @ ''k2''))
                (''KWords: k2,'' @ replicate (Suc 0) CHR '' '' @ ''k3''))
        = ''k1, k2, k3''
      \<and> keywordsToString
          (feed (feed ?pc (''KWords: k2,'' @ replicate (Suc 0) CHR '' '' @ ''k3''))
                (''KWords: k1,'' @ replicate (Suc (Suc (Suc 0))) CHR '' '' @ ''k2''))
        = ''k1, k2, k3''"
    by blast
  then have "keywordsToString (feed (feed ?pc ''KWords: k1,   k2'') ''KWords: k2, k3'')
        = ''k1, k2, k3''
      \<and> keywordsToString (feed (feed ?pc ''KWords: k2, k3'') ''KWords: k1,   k2'')
        = ''k1, k2, k3''"
    by simp
  with g k1 k2 twice show ?thesis by simp
qed

section \<open>Heading candidates\<close>

lemma re_sub_spaces_no_space: "\<forall>c\<in>set w. \<not> isspace c \<Longrightarrow> re_sub_spaces w = w"
  by (induction w) auto

lemma re_sub_spaces_append_no_space:
  "\<forall>c\<in>set x. \<not> isspace c \<Longrightarrow> re_sub_spaces (x @ z) = x @ re_sub_spaces z"
  by (induction x) auto

lemma str_lstrip_id: "s = [] \<or> \<not> isspace (hd s) \<Longrightarrow> str_lstrip s = s"
  by (cases s) (auto simp: str_lstrip_def)

lemma str_rstrip_id: "s = [] \<or> \<not> isspace (last s) \<Longrightarrow> str_rstrip s = s"
proof (cases "s = []")
  case True
  then show ?thesis by (simp add: str_rstrip_def)
next
  case False
  assume "s = [] \<or> \<not> isspace (last s)"
  with False have "\<not> isspace (hd (rev s))" by (simp add: hd_rev)
  with False have "dropWhile isspace (rev s) = rev s"
    by (cases "rev s") auto
  then show ?thesis by (simp add: str_rstrip_def)
qed

lemma str_rstrip_decomp: "x = str_rstrip x @ rev (takeWhile isspace (rev x))"
proof -
  have "rev (dropWhile isspace (rev x)) @ rev (takeWhile isspace (rev x))
        = rev (takeWhile isspace (rev x) @ dropWhile isspace (rev x))"
    by (simp only: rev_append)
  also have "\<dots> = rev (rev x)" by (simp only: takeWhile_dropWhile_id)
  also have "\<dots> = x" by simp
  finally show ?thesis by (simp add: str_rstrip_def)
qed

lemma str_rstrip_last: "str_rstrip x \<noteq> [] \<Longrightarrow> \<not> isspace (last (str_rstrip x))"
proof -
  assume a: "str_rstrip x \<noteq> []"
  then have ne: "dropWhile isspace (rev x) \<noteq> []" by (simp add: str_rstrip_def)
  then have "\<not> isspace (hd (dropWhile isspace (rev x)))" by (rule hd_dropWhile)
  with ne show ?thesis by (simp add: str_rstrip_def last_rev)
qed

lemma str_rstrip_hd: "str_rstrip x \<noteq> [] \<Longrightarrow> hd (str_rstrip x) = hd x"
  using str_rstrip_decomp[of x] by (metis hd_append2)

lemma str_strip_hd: "str_strip s \<noteq> [] \<Longrightarrow> \<not> isspace (hd (str_strip s))"
proof -
  assume a: "str_strip s \<noteq> []"
  have ne: "dropWhile isspace s \<noteq> []"
  proof
    assume e: "dropWhile isspace s = []"
    have "str_strip s = []"
      unfolding str_strip_def str_lstrip_def str_rstrip_def e by simp
    with a show False by simp
  qed
  then have "\<not> isspace (hd (dropWhile isspace s))" by (rule hd_dropWhile)
  with a show ?thesis
    by (simp add: str_strip_def str_lstrip_def str_rstrip_hd)
qed

lemma str_strip_last: "str_strip s \<noteq> [] \<Longrightarrow> \<not> isspace (last (str_strip s))"
  by (simp add: str_strip_def str_rstrip_last)

lemma hd_re_sub_spaces: "s \<noteq> [] \<Longrightarrow> \<not> isspace (hd s) \<Longrightarrow> hd (re_sub_spaces s) = hd s"
  by (cases s) auto

lemma last_re_sub_spaces:
  "s \<noteq> [] \<Longrightarrow> \<not> isspace (last s) \<Longrightarrow> \<not> isspace (last (re_sub_spaces s))"
proof (induction s rule: re_sub_spaces.induct)
  case 1
  then show ?case by simp
next
  case (2 c cs)
  show ?case
  proof (cases "isspace c")
    case True
    with 2(4) have cs: "cs \<noteq> []" by auto
    with 2(4) have l: "\<not> isspace (last cs)" by simp
    with cs have "last cs \<in> set cs" "\<not> isspace (last cs)" by simp_all
    then have ne: "dropWhile isspace cs \<noteq> []" by auto
    then have "last (dropWhile isspace cs) = last cs"
      by (metis append_self_conv2 last_appendR takeWhile_dropWhile_id)
    with 2(1)[OF True ne] l have "\<not> isspace (last (re_sub_spaces (dropWhile isspace cs)))"
      by simp
    with True ne show ?thesis by simp
  next
    case False
    show ?thesis
    proof (cases "cs = []")
      case True
      with False show ?thesis by simp
    next
      case ne: False
      with 2(4) have "\<not> isspace (last cs)" by simp
      with 2(2)[OF False ne] False ne show ?thesis by simp
    qed
  qed
qed

lemma dropWhile_re_sub_spaces:
  "d = [] \<or> \<not> isspace (hd d) \<Longrightarrow> dropWhile isspace (re_sub_spaces d) = re_sub_spaces d"
  by (cases d) auto

lemma re_sub_spaces_idem: "re_sub_spaces (re_sub_spaces s) = re_sub_spaces s"
proof (induction s rule: re_sub_spaces.induct)
  case 1
  show ?case by simp
next
  case (2 c cs)
  show ?case
  proof (cases "isspace c")
    case True
    let ?d = "dropWhile isspace cs"
    have "?d = [] \<or> \<not> isspace (hd ?d)"
      using hd_dropWhile[of isspace cs] by blast
    then have "dropWhile isspace (re_sub_spaces ?d) = re_sub_spaces ?d"
      by (rule dropWhile_re_sub_spaces)
    with True 2(1) show ?thesis by simp
  next
    case False
    with 2(2) show ?thesis by simp
  qed
qed

text \<open>
  The result of \<open>normalise_text\<close>, when it is not empty, starts and ends with a byte that
  is no whitespace, and \<open>re.sub("\s+", " ", ...)\<close> leaves it as it is.
\<close>

lemma normalise_text_shape:
  assumes "normalise_text t \<noteq> []"
  shows "\<not> isspace (hd (normalise_text t)) \<and> \<not> isspace (last (normalise_text t))
         \<and> re_sub_spaces (normalise_text t) = normalise_text t"
proof -
  from assms have ne: "str_strip t \<noteq> []" by (simp add: normalise_text_def)
  from ne have h: "\<not> isspace (hd (str_strip t))" by (rule str_strip_hd)
  from ne have l: "\<not> isspace (last (str_strip t))" by (rule str_strip_last)
  show ?thesis
    using ne h l
    by (simp add: normalise_text_def hd_re_sub_spaces last_re_sub_spaces re_sub_spaces_idem)
qed

lemma normalise_text_padded:
  assumes "\<forall>c\<in>set a. isspace c" "\<forall>c\<in>set b. isspace c" "w \<noteq> []" "\<forall>c\<in>set w. \<not> isspace c"
  shows "normalise_text (a @ w @ b) = w"
proof -
  from assms(3,4) have hw: "\<not> isspace (hd w)" and lw: "\<not> isspace (last w)" by simp_all
  have "str_lstrip (a @ w @ b) = str_lstrip (w @ b)"
    using assms(1) by (simp add: str_lstrip_def)
  also have "\<dots> = w @ b"
    using assms(3) hw by (intro str_lstrip_id) simp
  finally have "str_strip (a @ w @ b) = str_rstrip (w @ b)" by (simp add: str_strip_def)
  also have "\<dots> = str_rstrip w"
    using assms(2) by (simp add: str_rstrip_append)
  also have "\<dots> = w" using lw by (intro str_rstrip_id) simp
  finally show ?thesis
    using assms(4) by (simp add: normalise_text_def re_sub_spaces_no_space)
qed

lemma normalise_text_glue:
  assumes "x \<noteq> []" "\<forall>c\<in>set x. \<not> isspace c" "y \<noteq> []" "\<not> isspace (hd y)"
      and "\<not> isspace (last y)" "re_sub_spaces y = y"
  shows "normalise_text (x @ '' '' @ y) = x @ '' '' @ y"
proof -
  from assms(1,2) have hx: "\<not> isspace (hd x)" by simp
  have "str_lstrip (x @ '' '' @ y) = x @ '' '' @ y"
    using assms(1) hx by (intro str_lstrip_id) simp
  moreover have "str_rstrip (x @ '' '' @ y) = x @ '' '' @ y"
    using assms(3,5) by (intro str_rstrip_id) simp
  ultimately have s: "str_strip (x @ '' '' @ y) = x @ '' '' @ y"
    by (simp add: str_strip_def)
  have "dropWhile isspace y = y" using assms(3,4) by (cases y) auto
  then have "re_sub_spaces (x @ '' '' @ y) = x @ '' '' @ y"
    using assms(2,6) by (simp add: re_sub_spaces_append_no_space)
  with s show ?thesis by (simp add: normalise_text_def)
qed

lemma of_char_eq_D: "(of_char c :: nat) = n \<Longrightarrow> c = char_of n"
  by (metis char_of_char)

lemma upper_of_lower_t: "lower_char c = CHR ''t'' \<Longrightarrow> upper_char c = CHR ''T''"
proof (cases "65 \<le> (of_char c :: nat) \<and> (of_char c :: nat) \<le> 90")
  case True
  assume "lower_char c = CHR ''t''"
  with True have "char_of ((of_char c :: nat) + 32) = CHR ''t''"
    by (simp add: lower_char_def)
  then have "((of_char c :: nat) + 32) mod 256 = 116"
    by (auto dest!: char_of_eq_D)
  with True have "(of_char c :: nat) = 84" by simp
  then have "c = char_of (84 :: nat)" by (rule of_char_eq_D)
  then have "c = CHR ''T''" by (simp add: char_of_def bit_iff_odd)
  then show ?thesis by (simp add: upper_char_def)
next
  case False
  assume "lower_char c = CHR ''t''"
  with False have "c = CHR ''t''" by (auto simp: lower_char_def Let_def)
  then show ?thesis by (simp add: upper_char_def char_of_def bit_iff_odd)
qed

lemma str_capitalize_tutorial: "str_lower w = ''tutorial'' \<Longrightarrow> str_capitalize w = ''Tutorial''"
proof -
  assume a: "str_lower w = ''tutorial''"
  then obtain c cs where w: "w = c # cs" and c: "lower_char c = CHR ''t''"
    and cs: "map lower_char cs = ''utorial''"
    by (cases w) (auto simp: str_lower_def)
  from c have "upper_char c = CHR ''T''" by (rule upper_of_lower_t)
  with w cs show ?thesis by (simp add: str_capitalize_def)
qed

lemma tutorial_no_space:
  assumes "str_lower w = ''tutorial''"
  shows "\<forall>c\<in>set w. \<not> isspace c"
proof
  fix c
  assume "c \<in> set w"
  then have "lower_char c \<in> set (str_lower w)" by (simp add: str_lower_def)
  then have "\<not> isspace (lower_char c)"
    unfolding assms by (auto simp: isspace_def)
  then show "\<not> isspace c" by simp
qed

text \<open>
  The candidate that \<open>__tutorialHeading\<close> builds from a heading line is \<open>Tutorial\<close>, a
  space and the normalised rest of the line.
\<close>

lemma tutorialHeading_shape:
  assumes "read_heading_prefix l = Some p"
  shows "tutorialHeading p l = Inr (''Tutorial'' @ '' '' @ normalise_text (drop (length p) l))"
proof -
  from assms have ih: "is_heading l = Some p"
    by (auto simp: read_heading_prefix_def split: option.splits if_splits)
  let ?r = "dropWhile isspace l"
  from ih have low: "str_lower (take 8 ?r) = ''tutorial''"
    and p: "p = takeWhile isspace l @ take 8 ?r @ takeWhile isspace (drop 8 ?r)"
    by (auto simp: is_heading_def Let_def split: if_splits)
  have "length (str_lower (take 8 ?r)) = length ''tutorial''"
    using low by (rule arg_cong)
  then have "length (take 8 ?r) = 8"
    by (simp add: str_lower_def del: length_take)
  then have ne: "take 8 ?r \<noteq> []"
    by (metis list.size(3) zero_neq_numeral)
  have "normalise_text (takeWhile isspace l @ take 8 ?r @ takeWhile isspace (drop 8 ?r))
        = take 8 ?r"
  proof (rule normalise_text_padded)
    show "\<forall>c\<in>set (takeWhile isspace l). isspace c"
      by (auto dest: set_takeWhileD)
    show "\<forall>c\<in>set (takeWhile isspace (drop 8 ?r)). isspace c"
      by (auto dest: set_takeWhileD)
    show "take 8 ?r \<noteq> []" by (rule ne)
    show "\<forall>c\<in>set (take 8 ?r). \<not> isspace c" by (rule tutorial_no_space[OF low])
  qed
  then have "normalise_text p = take 8 ?r" by (simp only: p)
  then have "str_capitalize (normalise_text p) = ''Tutorial''"
    using low by (simp add: str_capitalize_tutorial)
  moreover from ih have "prefix p l" by (auto dest: is_heading_prefix)
  ultimately show ?thesis
    by (simp add: tutorialHeading_def tail_after_prefix)
qed

text \<open>
  On a comment line of the scanner, which \<open>strip\<close> leaves as it is, the rest of a heading
  line is not empty, and the candidate is a heading candidate in the sense of
  \<open>heading_candidate\<close>.
\<close>

lemma heading_prefix_ends_in_space:
  assumes "is_heading l = Some p"
  shows "p \<noteq> [] \<and> isspace (last p)"
proof -
  let ?w = "takeWhile isspace (drop 8 (dropWhile isspace l))"
  from assms have w: "?w \<noteq> []"
    and p: "p = (takeWhile isspace l @ take 8 (dropWhile isspace l)) @ ?w"
    by (auto simp: is_heading_def Let_def split: if_splits)
  from w have "last ?w \<in> set ?w" by (rule last_in_set)
  then have "isspace (last ?w)" by (auto dest: set_takeWhileD)
  moreover have "last p = last ?w" unfolding p using w by (rule last_appendR)
  moreover have "p \<noteq> []" unfolding p using w by simp
  ultimately show ?thesis by simp
qed

lemma stripped_rest_nonempty:
  assumes "str_strip l = l" "is_heading l = Some p"
  shows "normalise_text (drop (length p) l) \<noteq> []"
proof
  let ?t = "drop (length p) l"
  assume e: "normalise_text ?t = []"
  from assms(2) have "prefix p l" by (auto dest: is_heading_prefix)
  then have l: "l = p @ ?t" by (auto simp: prefix_def)
  from heading_prefix_ends_in_space[OF assms(2)] have pne: "p \<noteq> []" and lp: "isspace (last p)"
    by auto
  from e have sp: "\<forall>c\<in>set ?t. isspace c" by (simp only: normalise_text_Nil_iff)
  have sl: "isspace (last l)"
  proof (cases "?t = []")
    case True
    then have "l = p" using l by simp
    with lp show ?thesis by simp
  next
    case False
    then have "last (p @ ?t) = last ?t" by (rule last_appendR)
    then have "last l = last ?t" using l by simp
    moreover from False have "last ?t \<in> set ?t" by (rule last_in_set)
    ultimately show ?thesis using sp by simp
  qed
  from pne l have "l \<noteq> []" by (cases p) auto
  then have "str_strip l \<noteq> []" by (metis assms(1))
  then have "\<not> isspace (last (str_strip l))" by (rule str_strip_last)
  then have "\<not> isspace (last l)" by (metis assms(1))
  with sl show False by simp
qed


lemma tutorialHeading_candidate:
  assumes "str_strip l = l" "read_heading_prefix l = Some p" "tutorialHeading p l = Inr h"
  shows "heading_candidate h"
proof -
  let ?y = "normalise_text (drop (length p) l)"
  from assms(2) have ih: "is_heading l = Some p"
    by (auto simp: read_heading_prefix_def split: option.splits if_splits)
  from stripped_rest_nonempty[OF assms(1) ih] have yne: "?y \<noteq> []" .
  from normalise_text_shape[OF yne] have y1: "\<not> isspace (hd ?y)"
    and y2: "\<not> isspace (last ?y)" and y3: "re_sub_spaces ?y = ?y"
    by blast+
  have ns: "\<forall>c\<in>set ''Tutorial''. \<not> isspace c" by (simp add: isspace_def)
  have ne: "''Tutorial'' \<noteq> []" by simp
  have g: "normalise_text (''Tutorial'' @ '' '' @ ?y) = ''Tutorial'' @ '' '' @ ?y"
    using ne ns yne y1 y2 y3 by (rule normalise_text_glue)
  from tutorialHeading_shape[OF assms(2)] assms(3)
  have h: "h = ''Tutorial'' @ '' '' @ ?y" by (metis sum.inject(2))
  have "h \<noteq> []" unfolding h by simp
  moreover have "normalise_text h = h" unfolding h by (rule g)
  ultimately show ?thesis unfolding heading_candidate_def by (rule conjI)
qed

section \<open>Reconciling two headings\<close>

lemma str_find_zero: "str_find s sub = 0 \<longleftrightarrow> prefix sub s"
  by (cases s) (auto simp: Let_def)

lemma updateHeading_first:
  "heading pc = [] \<Longrightarrow>
   updateHeading pc h c = Inr (setCurrent c None, storeHeading pc h)"
  by (simp add: updateHeading_def)

lemma storeHeading_candidate:
  "heading_candidate h \<Longrightarrow>
   storeHeading pc h = pc\<lparr>heading := h, headingLC := str_lower h\<rparr>"
  by (simp add: storeHeading_def heading_candidate_def)

lemma updateHeading_longer:
  assumes "heading pc \<noteq> []" "headingLC pc = str_lower (heading pc)"
      and "strict_prefix (str_lower (heading pc)) (str_lower h)"
  shows "updateHeading pc h c = Inr (setCurrent c None, pc)"
proof -
  from assms(3) have "\<not> prefix (str_lower h) (str_lower (heading pc))"
    by (auto simp: strict_prefix_def dest: prefix_order.antisym)
  with assms show ?thesis
    by (auto simp: updateHeading_def Let_def str_find_zero strict_prefix_def)
qed

lemma updateHeading_shorter:
  assumes "heading pc \<noteq> []" "headingLC pc = str_lower (heading pc)"
      and "strict_prefix (str_lower h) (str_lower (heading pc))"
  shows "updateHeading pc h c =
           Inr ((setCurrent c None)\<lparr>c_warning := ''will use newly found, shorter heading ''
                                                   @ [CHR 0x27] @ h @ [CHR 0x27]\<rparr>,
                storeHeading pc h)"
  using assms
  by (auto simp: updateHeading_def Let_def str_find_zero strict_prefix_def)

lemma updateHeading_conflict:
  assumes "heading pc \<noteq> []" "headingLC pc = str_lower (heading pc)"
      and "\<not> prefix (str_lower h) (str_lower (heading pc))"
      and "\<not> prefix (str_lower (heading pc)) (str_lower h)"
  shows "updateHeading pc h c =
           Inr (c\<lparr>c_error := ''heading '' @ [CHR 0x27] @ h @ [CHR 0x27] @ '' different from previous files' heading ''
                               @ [CHR 0x27] @ (heading pc) @ [CHR 0x27] @ [CHR 0x0A]\<rparr>,
                pc)"
proof -
  from assms(3) have "str_lower (heading pc) \<noteq> str_lower h" by auto
  with assms show ?thesis
    by (simp add: updateHeading_def Let_def str_find_zero)
qed


text \<open>
  C2, as the code has it. For two heading candidates \<open>A\<close> and \<open>B\<close> (every candidate built
  from a comment line of the scanner is one, by \<open>tutorialHeading_candidate\<close>) such that,
  letter case apart, \<open>A\<close> is a prefix of \<open>B\<close> and shorter than \<open>B\<close>, and an aggregator
  that stores no heading: after \<open>A\<close> then \<open>B\<close> the stored heading is \<open>A\<close>, and the record of \<open>B\<close> comes back
  with its text set to \<open>None\<close> and nothing else changed, so with no warning and no error;
  after \<open>B\<close> then \<open>A\<close> the stored heading is \<open>A\<close> again, and the record of \<open>A\<close> comes back
  with the warning of the shorter heading and no error.
\<close>

theorem shorter_heading_wins:
  assumes "heading_candidate A" "heading_candidate B"
      and "strict_prefix (str_lower A) (str_lower B)"
      and "heading pc = []"
  shows "(\<exists>pc1. updateHeading pc A c = Inr (setCurrent c None, pc1) \<and> heading pc1 = A
             \<and> updateHeading pc1 B c' = Inr (setCurrent c' None, pc1))
         \<and> (\<exists>pc1 pc2. updateHeading pc B c = Inr (setCurrent c None, pc1) \<and> heading pc1 = B
             \<and> updateHeading pc1 A c'
                 = Inr ((setCurrent c' None)
                          \<lparr>c_warning := ''will use newly found, shorter heading '' @ [CHR 0x27] @ A @ [CHR 0x27]\<rparr>,
                        pc2)
             \<and> heading pc2 = A)"
proof (intro conjI)
  let ?pa = "pc\<lparr>heading := A, headingLC := str_lower A\<rparr>"
  have 1: "updateHeading pc A c = Inr (setCurrent c None, ?pa)"
    using assms(1,4) by (simp add: updateHeading_first storeHeading_candidate)
  have "updateHeading ?pa B c' = Inr (setCurrent c' None, ?pa)"
    using assms(1,3) by (intro updateHeading_longer) (simp_all add: heading_candidate_def)
  with 1 show "\<exists>pc1. updateHeading pc A c = Inr (setCurrent c None, pc1) \<and> heading pc1 = A
             \<and> updateHeading pc1 B c' = Inr (setCurrent c' None, pc1)"
    by (intro exI[of _ ?pa]) simp
next
  let ?pb = "pc\<lparr>heading := B, headingLC := str_lower B\<rparr>"
  have 1: "updateHeading pc B c = Inr (setCurrent c None, ?pb)"
    using assms(2,4) by (simp add: updateHeading_first storeHeading_candidate)
  have "updateHeading ?pb A c'
          = Inr ((setCurrent c' None)
                   \<lparr>c_warning := ''will use newly found, shorter heading '' @ [CHR 0x27] @ A @ [CHR 0x27]\<rparr>,
                 storeHeading ?pb A)"
    using assms(2,3) by (intro updateHeading_shorter) (simp_all add: heading_candidate_def)
  with 1 show "\<exists>pc1 pc2. updateHeading pc B c = Inr (setCurrent c None, pc1) \<and> heading pc1 = B
             \<and> updateHeading pc1 A c'
                 = Inr ((setCurrent c' None)
                          \<lparr>c_warning := ''will use newly found, shorter heading '' @ [CHR 0x27] @ A @ [CHR 0x27]\<rparr>,
                        pc2)
             \<and> heading pc2 = A"
    using assms(1)
    by (intro exI[of _ ?pb] exI[of _ "storeHeading ?pb A"]) (simp add: storeHeading_candidate)
qed

text \<open>The theorem for the headings \<open>Tutorial 1: a\<close> and \<open>Tutorial 1: a b\<close> of the spec.\<close>

theorem shorter_heading_wins_witness:
  "heading_candidate ''Tutorial 1: a'' \<and> heading_candidate ''Tutorial 1: a b''
   \<and> strict_prefix (str_lower ''Tutorial 1: a'') (str_lower ''Tutorial 1: a b'')
   \<and> heading ProcessComment_init = []
   \<and> (\<exists>pc1. updateHeading ProcessComment_init ''Tutorial 1: a''
                 (Comment_init 1 (Some ''Tutorial 1: a''))
               = Inr (setCurrent (Comment_init 1 (Some ''Tutorial 1: a'')) None, pc1)
             \<and> heading pc1 = ''Tutorial 1: a''
             \<and> updateHeading pc1 ''Tutorial 1: a b'' (Comment_init 1 (Some ''Tutorial 1: a b''))
               = Inr (setCurrent (Comment_init 1 (Some ''Tutorial 1: a b'')) None, pc1))
   \<and> (\<exists>pc1 pc2. updateHeading ProcessComment_init ''Tutorial 1: a b''
                 (Comment_init 1 (Some ''Tutorial 1: a''))
               = Inr (setCurrent (Comment_init 1 (Some ''Tutorial 1: a'')) None, pc1)
             \<and> heading pc1 = ''Tutorial 1: a b''
             \<and> updateHeading pc1 ''Tutorial 1: a'' (Comment_init 1 (Some ''Tutorial 1: a b''))
               = Inr ((setCurrent (Comment_init 1 (Some ''Tutorial 1: a b'')) None)
                        \<lparr>c_warning := ''will use newly found, shorter heading ''
                                       @ [CHR 0x27] @ ''Tutorial 1: a'' @ [CHR 0x27]\<rparr>,
                      pc2)
             \<and> heading pc2 = ''Tutorial 1: a'')"
proof -
  have a: "heading_candidate ''Tutorial 1: a''" and b: "heading_candidate ''Tutorial 1: a b''"
    by (simp_all add: heading_candidate_def normalise_text_def str_strip_def str_lstrip_def
          str_rstrip_def isspace_def)
  have p: "strict_prefix (str_lower ''Tutorial 1: a'') (str_lower ''Tutorial 1: a b'')"
    by (simp add: str_lower_def lower_char_def char_of_def bit_iff_odd)
  have h: "heading ProcessComment_init = []"
    by (simp add: ProcessComment_init_def)
  from shorter_heading_wins[OF a b p h, of "Comment_init 1 (Some ''Tutorial 1: a'')"
          "Comment_init 1 (Some ''Tutorial 1: a b'')"] a b p h
  show ?thesis by blast
qed

text \<open>
  C2 as the spec states it, for every prefix, fails for two headings that differ in letter
  case only:
  \<open>Tutorial a\<close> is, letter case apart, a prefix of \<open>Tutorial A\<close>. After \<open>Tutorial A\<close> then
  \<open>Tutorial a\<close> the stored heading is still \<open>Tutorial A\<close>, and the record of \<open>Tutorial a\<close>
  comes back with no warning: \<open>__updateHeading\<close> returns at once when the two headings in
  lower case are equal.
\<close>

theorem equal_up_to_case_counterexample:
  "heading_candidate ''Tutorial a'' \<and> heading_candidate ''Tutorial A''
   \<and> prefix (str_lower ''Tutorial a'') (str_lower ''Tutorial A'')
   \<and> updateHeading ProcessComment_init ''Tutorial A'' (Comment_init 1 (Some ''Tutorial A''))
       = Inr (\<lparr>c_lineNo = 1, c_current = None, c_error = [], c_warning = [],
                c_heading = [], c_keywords = []\<rparr>,
              \<lparr>heading = ''Tutorial A'', headingLC = ''tutorial a'', keywordsSet = {},
                keywordsAllowed = False\<rparr>)
   \<and> updateHeading \<lparr>heading = ''Tutorial A'', headingLC = ''tutorial a'', keywordsSet = {},
                     keywordsAllowed = False\<rparr>
         ''Tutorial a'' (Comment_init 1 (Some ''Tutorial a''))
       = Inr (\<lparr>c_lineNo = 1, c_current = None, c_error = [], c_warning = [],
                c_heading = [], c_keywords = []\<rparr>,
              \<lparr>heading = ''Tutorial A'', headingLC = ''tutorial a'', keywordsSet = {},
                keywordsAllowed = False\<rparr>)
   \<and> ''Tutorial A'' \<noteq> ''Tutorial a''"
  by (simp add: heading_candidate_def agg_defs scan_defs)


section \<open>Two headings that cannot be reconciled\<close>

lemma scan_file_Exited:
  "scanner_inv nc \<Longrightarrow> scan_file fn pc nc err = Some (Exited e st) \<Longrightarrow> st = 1"
proof (induction "length (file_pointer nc)" arbitrary: nc pc err rule: less_induct)
  case less
  have "call nc \<noteq> Inl RuntimeError"
  proof
    assume "call nc = Inl RuntimeError"
    with less.prems(2) show False by (subst (asm) scan_file.simps) simp
  qed
  with call_entry_outcome[OF less.prems(1)] obtain c nc1 where
    cl: "call nc = Inr (c, nc1)" and inv1: "scanner_inv nc1" and fr: "fresh_comment (lineNo nc1) c"
    by blast
  from fr obtain l where l: "c_current c = Some l"
    by (auto simp: fresh_comment_def)
  from ProcessComment_call_total[OF l] obtain c1 pc1 where
    pc: "ProcessComment_call pc c = Inr (c1, pc1)" by blast
  have rec: "st = 1"
    if nd: "\<forall>r. assess_processing_result c1 \<noteq> DONE r"
      and res: "scan_file fn pc1 nc1 err1 = Some (Exited e st)" for err1
  proof -
    have "file_pointer nc \<noteq> []"
    proof
      assume e: "file_pointer nc = []"
      with cl have "c_current c = Some []" "fresh_comment (c_lineNo c) c"
        by (auto simp: call_entry_Nil Comment_init_def fresh_comment_def)
      with pc have "assess_processing_result c1 = DONE c1"
        by (auto simp: ProcessComment_call_closing assess_closing)
      with nd show False by simp
    qed
    with cl have "length (file_pointer nc1) < length (file_pointer nc)"
      by (rule call_entry_consumes)
    then show ?thesis using inv1 res by (rule less.hyps)
  qed
  show ?case
  proof (cases "assess_processing_result c1")
    case (NOT_DONE x)
    with less.prems(2) cl pc have "scan_file fn pc1 nc1 err = Some (Exited e st)"
      by (subst (asm) scan_file.simps) simp
    with NOT_DONE show ?thesis by (intro rec) auto
  next
    case (DONE x)
    with less.prems(2) cl pc show ?thesis
      by (subst (asm) scan_file.simps) simp
  next
    case (WARNING m)
    with less.prems(2) cl pc have
      "scan_file fn pc1 nc1 (err @ handle_warning m fn) = Some (Exited e st)"
      by (subst (asm) scan_file.simps) simp
    with WARNING show ?thesis by (intro rec) auto
  next
    case (ERROR m)
    with less.prems(2) cl pc show ?thesis
      by (subst (asm) scan_file.simps) simp
  qed
qed

lemma scan_files_Exited:
  "scan_files files res pc err = Some (Exited e st) \<Longrightarrow> st = 1"
proof (induction files arbitrary: res pc err)
  case Nil
  then show ?case by simp
next
  case (Cons f files)
  obtain fn fp where f: "f = (fn, fp)" by (cases f)
  from Cons.prems f have
    all: "scan_files ((fn, fp) # files) res pc err = Some (Exited e st)"
    by simp
  show ?case
  proof (cases "scan_file fn pc (ProcessLine_init fp) err")
    case None
    with all show ?thesis by simp
  next
    case (Some x)
    show ?thesis
    proof (cases x)
      case (Raised e')
      with Some all show ?thesis by simp
    next
      case (Exited e' st')
      with Some all have "scan_file fn pc (ProcessLine_init fp) err = Some (Exited e st)"
        by simp
      with scanner_inv_initial show ?thesis by (rule scan_file_Exited)
    next
      case (Normal y)
      obtain r pc1 err1 where "y = (r, pc1, err1)" by (cases y)
      with Normal Some all have "scan_files files (Some r) pc1 err1 = Some (Exited e st)"
        by simp
      then show ?thesis by (rule Cons.IH)
    qed
  qed
qed

lemma process_nonzero_silent:
  assumes "process files = Some (Inr run)" "status run \<noteq> 0"
  shows "stdout run = []"
proof (cases "scan_files files None ProcessComment_init []")
  case None
  with assms show ?thesis by (simp add: process_def)
next
  case (Some x)
  show ?thesis
  proof (cases x)
    case (Raised e)
    with Some assms show ?thesis by (simp add: process_def)
  next
    case (Exited e st)
    with Some assms show ?thesis by (auto simp: process_def)
  next
    case (Normal y)
    obtain res pc err where y: "y = (res, pc, err)" by (cases y)
    show ?thesis
    proof (cases res)
      case None
      with Normal y Some assms show ?thesis by (auto simp: process_def)
    next
      case r: (Some r)
      show ?thesis
      proof (cases "display_metadata r ([], err)")
        case (Inl e)
        from display_metadata_raises[OF this] Inl Normal y Some r assms show ?thesis
          by (auto simp: process_def)
      next
        case (Inr io)
        with Normal y Some r assms show ?thesis
          by (cases io) (auto simp: process_def)
      qed
    qed
  qed
qed

text \<open>
  C3. For two heading candidates \<open>A\<close> and \<open>B\<close> (every candidate built from a comment line
  of the scanner is one, by \<open>tutorialHeading_candidate\<close>) such that, letter case apart,
  neither is a prefix of the other, and an aggregator that stores no heading: after either
  one, the other comes back with the error message that names both, each between two
  bytes \<open>0x27\<close> (the quotes around \<open>%s\<close> in the format), the new one before the stored
  one, and is
  classified \<open>ERROR\<close>. On
  a record classified \<open>ERROR\<close> the loop over the file ends at once with \<open>exit(1)\<close>, after
  the message with the file name and \<open>Processing aborted.\<close> on the standard error stream;
  the files after it are not read; the run ends with status 1 and nothing on the standard
  output, as every run does that ends with a status other than 0.
\<close>

theorem irreconcilable_headings_abort:
  assumes "heading_candidate A" "heading_candidate B"
      and "\<not> prefix (str_lower A) (str_lower B)" "\<not> prefix (str_lower B) (str_lower A)"
      and "heading pc = []"
  shows "(\<exists>pc1. updateHeading pc A c = Inr (setCurrent c None, pc1)
             \<and> updateHeading pc1 B c'
                 = Inr (c'\<lparr>c_error := ''heading '' @ [CHR 0x27] @ B @ [CHR 0x27]
                                      @ '' different from previous files' heading ''
                                      @ [CHR 0x27] @ A @ [CHR 0x27] @ [CHR 0x0A]\<rparr>, pc1)
             \<and> assess_processing_result
                   (c'\<lparr>c_error := ''heading '' @ [CHR 0x27] @ B @ [CHR 0x27]
                                  @ '' different from previous files' heading ''
                                  @ [CHR 0x27] @ A @ [CHR 0x27] @ [CHR 0x0A]\<rparr>)
                 = ERROR (''heading '' @ [CHR 0x27] @ B @ [CHR 0x27] @ '' different from previous files' heading ''
                          @ [CHR 0x27] @ A @ [CHR 0x27] @ [CHR 0x0A]))
         \<and> (\<exists>pc1. updateHeading pc B c = Inr (setCurrent c None, pc1)
             \<and> updateHeading pc1 A c'
                 = Inr (c'\<lparr>c_error := ''heading '' @ [CHR 0x27] @ A @ [CHR 0x27]
                                      @ '' different from previous files' heading ''
                                      @ [CHR 0x27] @ B @ [CHR 0x27] @ [CHR 0x0A]\<rparr>, pc1)
             \<and> assess_processing_result
                   (c'\<lparr>c_error := ''heading '' @ [CHR 0x27] @ A @ [CHR 0x27]
                                  @ '' different from previous files' heading ''
                                  @ [CHR 0x27] @ B @ [CHR 0x27] @ [CHR 0x0A]\<rparr>)
                 = ERROR (''heading '' @ [CHR 0x27] @ A @ [CHR 0x27] @ '' different from previous files' heading ''
                          @ [CHR 0x27] @ B @ [CHR 0x27] @ [CHR 0x0A]))
         \<and> (\<forall>fn pa nc err ca nc1 cb pb m.
               call nc = Inr (ca, nc1) \<and> ProcessComment_call pa ca = Inr (cb, pb)
               \<and> assess_processing_result cb = ERROR m \<longrightarrow>
               scan_file fn pa nc err
                 = Some (Exited (err @ fn @ '':'' @ m @ [CHR 0x0A]
                                 @ ''Processing aborted.'' @ [CHR 0x0A]) 1))
         \<and> (\<forall>fn fp files res pa err e st.
               scan_file fn pa (ProcessLine_init fp) err = Some (Exited e st) \<longrightarrow>
               scan_files ((fn, fp) # files) res pa err = Some (Exited e st))
         \<and> (\<forall>files e st.
               scan_files files None ProcessComment_init [] = Some (Exited e st) \<longrightarrow>
               process files = Some (Inr \<lparr>stdout = [], stderr = e, status = 1\<rparr>))
         \<and> (\<forall>files run. process files = Some (Inr run) \<and> status run \<noteq> 0 \<longrightarrow> stdout run = [])"
proof -
  have order: "\<exists>pc1. updateHeading pc X c = Inr (setCurrent c None, pc1)
             \<and> updateHeading pc1 Y c'
                 = Inr (c'\<lparr>c_error := ''heading '' @ [CHR 0x27] @ Y @ [CHR 0x27]
                                      @ '' different from previous files' heading ''
                                      @ [CHR 0x27] @ X @ [CHR 0x27] @ [CHR 0x0A]\<rparr>, pc1)
             \<and> assess_processing_result
                   (c'\<lparr>c_error := ''heading '' @ [CHR 0x27] @ Y @ [CHR 0x27]
                                  @ '' different from previous files' heading ''
                                  @ [CHR 0x27] @ X @ [CHR 0x27] @ [CHR 0x0A]\<rparr>)
                 = ERROR (''heading '' @ [CHR 0x27] @ Y @ [CHR 0x27] @ '' different from previous files' heading ''
                          @ [CHR 0x27] @ X @ [CHR 0x27] @ [CHR 0x0A])"
    if x: "heading_candidate X" and "\<not> prefix (str_lower X) (str_lower Y)"
      and "\<not> prefix (str_lower Y) (str_lower X)" for X Y
  proof -
    let ?px = "pc\<lparr>heading := X, headingLC := str_lower X\<rparr>"
    let ?m = "''heading '' @ [CHR 0x27] @ Y @ [CHR 0x27] @ '' different from previous files' heading ''
                    @ [CHR 0x27] @ X @ [CHR 0x27] @ [CHR 0x0A]"
    have 1: "updateHeading pc X c = Inr (setCurrent c None, ?px)"
      using x assms(5) by (simp add: updateHeading_first storeHeading_candidate)
    have 2: "updateHeading ?px Y c' = Inr (c'\<lparr>c_error := ?m\<rparr>, ?px)"
      using updateHeading_conflict[of ?px Y c'] x that(2,3)
      by (simp add: heading_candidate_def)
    have 3: "assess_processing_result (c'\<lparr>c_error := ?m\<rparr>) = ERROR ?m"
      by (simp add: assess_processing_result_def)
    from 1 2 3 show ?thesis by (intro exI[of _ ?px] conjI)
  qed
  have loop: "\<forall>fn pa nc err ca nc1 cb pb m.
               call nc = Inr (ca, nc1) \<and> ProcessComment_call pa ca = Inr (cb, pb)
               \<and> assess_processing_result cb = ERROR m \<longrightarrow>
               scan_file fn pa nc err
                 = Some (Exited (err @ fn @ '':'' @ m @ [CHR 0x0A]
                                 @ ''Processing aborted.'' @ [CHR 0x0A]) 1)"
  proof (intro allI impI)
    fix fn pa nc err ca nc1 cb pb m
    assume "call nc = Inr (ca, nc1) \<and> ProcessComment_call pa ca = Inr (cb, pb)
               \<and> assess_processing_result cb = ERROR m"
    then show "scan_file fn pa nc err
                 = Some (Exited (err @ fn @ '':'' @ m @ [CHR 0x0A]
                                 @ ''Processing aborted.'' @ [CHR 0x0A]) 1)"
      by (subst scan_file.simps) (simp add: handle_error_def)
  qed
  have files: "\<forall>fn fp files res pa err e st.
               scan_file fn pa (ProcessLine_init fp) err = Some (Exited e st) \<longrightarrow>
               scan_files ((fn, fp) # files) res pa err = Some (Exited e st)"
    by simp
  have run: "\<forall>files e st.
               scan_files files None ProcessComment_init [] = Some (Exited e st) \<longrightarrow>
               process files = Some (Inr \<lparr>stdout = [], stderr = e, status = 1\<rparr>)"
  proof (intro allI impI)
    fix files e st
    assume a: "scan_files files None ProcessComment_init [] = Some (Exited e st)"
    from scan_files_Exited[OF a] a
    show "process files = Some (Inr \<lparr>stdout = [], stderr = e, status = 1\<rparr>)"
      by (simp add: process_def)
  qed
  have silent: "\<forall>files run. process files = Some (Inr run) \<and> status run \<noteq> 0 \<longrightarrow> stdout run = []"
    using process_nonzero_silent by blast
  note o1 = order[OF assms(1,3,4)] and o2 = order[OF assms(2,4,3)]
  show ?thesis
    by (intro conjI) (rule o1, rule o2, rule loop, rule files, rule run, rule silent)
qed

text \<open>
  The theorem for the headings \<open>Tutorial A: x\<close> and \<open>Tutorial B: y\<close> of the spec, and the
  run over two files that hold them.
\<close>

theorem irreconcilable_headings_abort_witness:
  "heading_candidate ''Tutorial A: x'' \<and> heading_candidate ''Tutorial B: y''
   \<and> \<not> prefix (str_lower ''Tutorial A: x'') (str_lower ''Tutorial B: y'')
   \<and> \<not> prefix (str_lower ''Tutorial B: y'') (str_lower ''Tutorial A: x'')
   \<and> heading ProcessComment_init = []
   \<and> (\<exists>pc1. updateHeading ProcessComment_init ''Tutorial A: x''
                 (Comment_init 1 (Some ''Tutorial A: x''))
               = Inr (setCurrent (Comment_init 1 (Some ''Tutorial A: x'')) None, pc1)
         \<and> updateHeading pc1 ''Tutorial B: y'' (Comment_init 1 (Some ''Tutorial B: y''))
               = Inr ((Comment_init 1 (Some ''Tutorial B: y''))
                        \<lparr>c_error := ''heading '' @ [CHR 0x27] @ ''Tutorial B: y'' @ [CHR 0x27]
                                     @ '' different from previous files' heading ''
                                     @ [CHR 0x27] @ ''Tutorial A: x'' @ [CHR 0x27] @ [CHR 0x0A]\<rparr>, pc1)
         \<and> assess_processing_result
               ((Comment_init 1 (Some ''Tutorial B: y''))
                  \<lparr>c_error := ''heading '' @ [CHR 0x27] @ ''Tutorial B: y'' @ [CHR 0x27]
                               @ '' different from previous files' heading ''
                               @ [CHR 0x27] @ ''Tutorial A: x'' @ [CHR 0x27] @ [CHR 0x0A]\<rparr>)
             = ERROR (''heading '' @ [CHR 0x27] @ ''Tutorial B: y'' @ [CHR 0x27]
                      @ '' different from previous files' heading ''
                      @ [CHR 0x27] @ ''Tutorial A: x'' @ [CHR 0x27] @ [CHR 0x0A]))
   \<and> scan_files [(''a.txt'', [''# Tutorial A: x'']), (''b.txt'', [''# Tutorial B: y'']),
                 (''c.txt'', [''# Tutorial A: x''])] None ProcessComment_init []
       = Some (Exited (''b.txt:heading '' @ [CHR 0x27] @ ''Tutorial B: y'' @ [CHR 0x27]
                       @ '' different from previous files' heading ''
                       @ [CHR 0x27] @ ''Tutorial A: x'' @ [CHR 0x27] @ [CHR 0x0A, CHR 0x0A]
                       @ ''Processing aborted.'' @ [CHR 0x0A]) 1)
   \<and> process [(''a.txt'', [''# Tutorial A: x'']), (''b.txt'', [''# Tutorial B: y'']),
               (''c.txt'', [''# Tutorial A: x''])]
       = Some (Inr \<lparr>stdout = [],
                    stderr = ''b.txt:heading '' @ [CHR 0x27] @ ''Tutorial B: y'' @ [CHR 0x27]
                       @ '' different from previous files' heading ''
                       @ [CHR 0x27] @ ''Tutorial A: x'' @ [CHR 0x27] @ [CHR 0x0A, CHR 0x0A]
                       @ ''Processing aborted.'' @ [CHR 0x0A],
                    status = 1\<rparr>)"
proof -
  have a: "heading_candidate ''Tutorial A: x''" and b: "heading_candidate ''Tutorial B: y''"
    by (simp_all add: heading_candidate_def normalise_text_def str_strip_def str_lstrip_def
          str_rstrip_def isspace_def)
  have n1: "\<not> prefix (str_lower ''Tutorial A: x'') (str_lower ''Tutorial B: y'')"
    and n2: "\<not> prefix (str_lower ''Tutorial B: y'') (str_lower ''Tutorial A: x'')"
    by (simp_all add: str_lower_def lower_char_def char_of_def bit_iff_odd)
  have h: "heading ProcessComment_init = []"
    by (simp add: ProcessComment_init_def)
  have s: "scan_files [(''a.txt'', [''# Tutorial A: x'']), (''b.txt'', [''# Tutorial B: y'']),
                 (''c.txt'', [''# Tutorial A: x''])] None ProcessComment_init []
       = Some (Exited (''b.txt:heading '' @ [CHR 0x27] @ ''Tutorial B: y'' @ [CHR 0x27]
                       @ '' different from previous files' heading ''
                       @ [CHR 0x27] @ ''Tutorial A: x'' @ [CHR 0x27] @ [CHR 0x0A, CHR 0x0A]
                       @ ''Processing aborted.'' @ [CHR 0x0A]) 1)"
    by (simp add: scan_defs agg_defs run_defs)
  note t = irreconcilable_headings_abort[OF a b n1 n2 h,
      of "Comment_init 1 (Some ''Tutorial A: x'')" "Comment_init 1 (Some ''Tutorial B: y'')"]
  note t1 = t[THEN conjunct1]
  note t5 = t[THEN conjunct2, THEN conjunct2, THEN conjunct2, THEN conjunct2, THEN conjunct1,
      rule_format, OF s]
  show ?thesis
    by (intro conjI) (rule a, rule b, rule n1, rule n2, rule h, rule t1, rule s, rule t5)
qed

end
